theory Spec2Isabelle
  imports Main "HOL-Library.Multiset" "HOL-Library.Monad_Syntax"
begin

section \<open>The data model of the sortable nested list\<close>

text \<open>
  A JavaScript array can hold \<open>undefined\<close> at run time even where its TypeScript type is
  \<open>Item[]\<close> or \<open>Group[]\<close>: the handlers below put the first element of a possibly
  empty \<open>splice\<close> result back into an array. An array element is therefore a slot.
\<close>

datatype 'a slot = Undefined | Def 'a

text \<open>\<open>interface Item { id: string; content: string }\<close>\<close>

record Item =
  id_item :: string
  content :: string

text \<open>
  \<open>interface Group { id: string; title: string; items: Item[]; isCollapsed?: boolean }\<close>.
  The optional field is absent (\<open>None\<close>) in the seed data.
\<close>

record Group =
  id_group :: string
  title :: string
  items :: "Item slot list"
  isCollapsed :: "bool option"

type_synonym Groups = "Group slot list"

text \<open>
  The \<open>data.current\<close> of a draggable element, as the three components register it with
  \<open>useSortable\<close>: \<open>type\<close> is \<open>"group"\<close>, \<open>"item"\<close> or \<open>"empty"\<close>, and \<open>groupId\<close> is present for
  items and empty placeholders. \<open>type_el = None\<close> stands for a missing \<open>data.current\<close> or any
  other type, \<open>groupId = None\<close> for \<open>undefined\<close>.
\<close>

datatype ElType = Group_type | Item_type | Empty_type

record Element =
  id_el :: string
  type_el :: "ElType option"
  groupId :: "string option"

text \<open>\<open>DragEndEvent\<close> and \<open>DragMoveEvent\<close>: \<open>over\<close> is \<open>null\<close> when nothing is hovered.\<close>

record DragEvent =
  active :: Element
  over :: "Element option"

section \<open>JavaScript array primitives\<close>

text \<open>
  A value of type \<open>'a option\<close> returned by a handler is \<open>None\<close> when the JavaScript throws
  a TypeError (a property read on \<open>undefined\<close>).
\<close>

text \<open>\<open>x.prop\<close> on a slot: throws on \<open>undefined\<close>.\<close>

fun deref :: "'a slot \<Rightarrow> 'a option" where
  "deref Undefined = None"
| "deref (Def v) = Some v"

text \<open>The defined elements of an array, in order.\<close>

fun defs :: "'a slot list \<Rightarrow> 'a list" where
  "defs [] = []"
| "defs (Undefined # xs) = defs xs"
| "defs (Def v # xs) = v # defs xs"

fun is_def :: "'a slot \<Rightarrow> bool" where
  "is_def Undefined = False"
| "is_def (Def v) = True"

text \<open>\<open>array[i]\<close>: \<open>undefined\<close> outside the array, in particular at \<open>-1\<close>.\<close>

definition at_index :: "'a slot list \<Rightarrow> int \<Rightarrow> 'a slot" where
  "at_index xs i = (if 0 \<le> i \<and> nat i < length xs then xs ! nat i else Undefined)"

text \<open>
  \<open>array.findIndex((x) => x.id === key)\<close>: the index of the first element the callback
  accepts, \<open>-1\<close> when there is none; the callback reads a property of the element, so it
  throws at an \<open>undefined\<close> element that is reached.
\<close>

fun findIndex_from :: "nat \<Rightarrow> ('a \<Rightarrow> bool) \<Rightarrow> 'a slot list \<Rightarrow> int option" where
  "findIndex_from k p [] = Some (- 1)"
| "findIndex_from k p (Undefined # xs) = None"
| "findIndex_from k p (Def v # xs) = (if p v then Some (int k) else findIndex_from (Suc k) p xs)"

definition findIndex :: "('a \<Rightarrow> bool) \<Rightarrow> 'a slot list \<Rightarrow> int option" where
  "findIndex p xs = findIndex_from 0 p xs"

text \<open>
  \<open>array.splice(start, deleteCount, ...ins)\<close>: a negative \<open>start\<close> counts from the end, the
  start is clamped to the array and the delete count to what is left. The result is the
  pair of the removed elements and the array afterwards.
\<close>

definition splice_start :: "nat \<Rightarrow> int \<Rightarrow> nat" where
  "splice_start len start =
     (if start < 0 then nat (max (int len + start) 0) else min (nat start) len)"

definition splice :: "'a list \<Rightarrow> int \<Rightarrow> nat \<Rightarrow> 'a list \<Rightarrow> 'a list \<times> 'a list" where
  "splice xs start deleteCount ins =
     (let s = splice_start (length xs) start;
          d = min deleteCount (length xs - s)
      in (take d (drop s xs), take s xs @ ins @ drop (s + d) xs))"

text \<open>\<open>const [x] = arr\<close> and \<open>arr[0]\<close>: \<open>undefined\<close> on an empty array.\<close>

fun first :: "'a slot list \<Rightarrow> 'a slot" where
  "first [] = Undefined"
| "first (x # xs) = x"

text \<open>
  Modelled from the spec: \<open>arrayMove\<close> is imported from the package \<open>@dnd-kit/sortable\<close> and
  is not part of the sources. The spec describes it as: remove the element at the old index,
  then insert it at the new index, computed against the sequence with the element already
  removed. The package does this with a copy and two splices,
  \<open>newArray.splice(to < 0 ? newArray.length + to : to, 0, newArray.splice(from, 1)[0])\<close>,
  which also fixes what happens at the index \<open>-1\<close> of a failed \<open>findIndex\<close>; the arguments of
  the outer splice are evaluated left to right, so the length is read before the removal.
\<close>

definition arrayMove :: "'a slot list \<Rightarrow> int \<Rightarrow> int \<Rightarrow> 'a slot list" where
  "arrayMove array from_i to_i =
     (let newArray = array;
          start = (if to_i < 0 then int (length newArray) + to_i else to_i);
          (removed, rest) = splice newArray from_i 1 []
      in snd (splice rest start 0 [first removed]))"

section \<open>The reorder engine: \<open>handleDragEnd\<close>\<close>

text \<open>
  The updater passed to \<open>setGroups\<close> when an item is dropped on an empty placeholder or on
  a group header (the two updaters are the same code): the item leaves its source group
  and is pushed onto the target group. The second lookup reads the array after the first
  write, as the JavaScript does.
\<close>

definition moveToEnd :: "Groups \<Rightarrow> string option \<Rightarrow> string \<Rightarrow> string option \<Rightarrow> Groups option" where
  "moveToEnd groups activeGroup activeId targetGroupId = do {
     sourceGroupIndex \<leftarrow> findIndex (\<lambda>g. Some (id_group g) = activeGroup) groups;
     src \<leftarrow> deref (at_index groups sourceGroupIndex);
     itemIndex \<leftarrow> findIndex (\<lambda>i. id_item i = activeId) (items src);
     let (removed, rest) = splice (items src) itemIndex 1 [];
     let movedItem = first removed;
     let updatedGroups = groups[nat sourceGroupIndex := Def (src\<lparr>items := rest\<rparr>)];
     targetGroupIndex \<leftarrow> findIndex (\<lambda>g. Some (id_group g) = targetGroupId) updatedGroups;
     tgt \<leftarrow> deref (at_index updatedGroups targetGroupIndex);
     Some (updatedGroups[nat targetGroupIndex := Def (tgt\<lparr>items := items tgt @ [movedItem]\<rparr>)])
   }"

text \<open>The updater for an item dropped on another item, within a group or across groups.\<close>

definition moveOntoItem :: "Groups \<Rightarrow> string option \<Rightarrow> string \<Rightarrow> string option \<Rightarrow> string \<Rightarrow> Groups option" where
  "moveOntoItem groups activeGroup activeId overGroup overId =
     (if activeGroup = overGroup then do {
        groupIndex \<leftarrow> findIndex (\<lambda>g. Some (id_group g) = activeGroup) groups;
        grp \<leftarrow> deref (at_index groups groupIndex);
        oldIndex \<leftarrow> findIndex (\<lambda>i. id_item i = activeId) (items grp);
        newIndex \<leftarrow> findIndex (\<lambda>i. id_item i = overId) (items grp);
        Some (groups[nat groupIndex := Def (grp\<lparr>items := arrayMove (items grp) oldIndex newIndex\<rparr>)])
      } else do {
        sourceGroupIndex \<leftarrow> findIndex (\<lambda>g. Some (id_group g) = activeGroup) groups;
        src \<leftarrow> deref (at_index groups sourceGroupIndex);
        itemIndex \<leftarrow> findIndex (\<lambda>i. id_item i = activeId) (items src);
        let (removed, rest) = splice (items src) itemIndex 1 [];
        let movedItem = first removed;
        let updatedGroups = groups[nat sourceGroupIndex := Def (src\<lparr>items := rest\<rparr>)];
        targetGroupIndex \<leftarrow> findIndex (\<lambda>g. Some (id_group g) = overGroup) updatedGroups;
        tgt \<leftarrow> deref (at_index updatedGroups targetGroupIndex);
        targetIndex \<leftarrow> findIndex (\<lambda>i. id_item i = overId) (items tgt);
        Some (updatedGroups[nat targetGroupIndex :=
                Def (tgt\<lparr>items := snd (splice (items tgt) targetIndex 0 [movedItem])\<rparr>)])
      })"

text \<open>
  The updater for a dragged group. \<open>overGroupId\<close> is the id of the hovered group header or
  the \<open>groupId\<close> of the hovered item or placeholder; the two branches of the second
  callback, \<open>group.id === over.id\<close> and \<open>group.id === overGroupId\<close>, compare with this
  same value.
\<close>

definition moveGroup :: "Groups \<Rightarrow> string \<Rightarrow> string option \<Rightarrow> Groups option" where
  "moveGroup groups activeId overGroupId = do {
     oldIndex \<leftarrow> findIndex (\<lambda>g. id_group g = activeId) groups;
     newIndex \<leftarrow> findIndex (\<lambda>g. Some (id_group g) = overGroupId) groups;
     Some (arrayMove groups oldIndex newIndex)
   }"

text \<open>\<open>if (overGroupId)\<close>: \<open>undefined\<close> and the empty string are falsy.\<close>

fun truthy :: "string option \<Rightarrow> bool" where
  "truthy None = False"
| "truthy (Some s) = (s \<noteq> [])"

text \<open>
  \<open>handleDragEnd\<close> as a function of the \<open>groups\<close> state: the new state, or \<open>None\<close> when the
  updater throws. (The handler also clears \<open>activeId\<close>, \<open>activeData\<close> and \<open>dropIndicator\<close>
  on every path.) Values have no identity: this is the list the updater returns; what it
  does to the list it was given is the subject of the next section.
\<close>

definition handleDragEnd :: "Groups \<Rightarrow> DragEvent \<Rightarrow> Groups option" where
  "handleDragEnd groups event =
     (case over event of
        None \<Rightarrow> Some groups
      | Some ov \<Rightarrow>
          (let act = active event;
               activeType = type_el act;
               overType = type_el ov;
               overId = id_el ov
           in if activeType = Some Group_type \<and> id_el act \<noteq> id_el ov then
                (let overGroupId = (if overType = Some Group_type then Some (id_el ov) else groupId ov)
                 in if truthy overGroupId then moveGroup groups (id_el act) overGroupId
                    else Some groups)
              else if activeType = Some Item_type then
                (let activeGroup = groupId act
                 in if overType = Some Empty_type then
                      moveToEnd groups activeGroup (id_el act) (groupId ov)
                    else if overType = Some Group_type then
                      moveToEnd groups activeGroup (id_el act) (Some overId)
                    else if overType = Some Item_type \<and> id_el act \<noteq> id_el ov then
                      moveOntoItem groups activeGroup (id_el act) (groupId ov) overId
                    else Some groups)
              else Some groups))"

section \<open>The reorder engine on a store\<close>

text \<open>
  The updaters of \<open>handleDragEnd\<close> write to objects their argument shares with the
  caller: \<open>[...groups]\<close> copies the array of group references, not the group objects, and
  \<open>splice\<close> and \<open>push\<close> change an items array in place. To see these writes, group objects
  and items arrays live in a store, at references. Items are never written to and stay
  values; arrays of groups are never changed in place (\<open>[...groups]\<close> and \<open>arrayMove\<close>
  build new ones) and are lists of references.
\<close>

type_synonym ref = nat

record GroupObj =
  id_obj :: string
  title_obj :: string
  items_ref :: ref
  isCollapsed_obj :: "bool option"

record store =
  objs :: "ref \<Rightarrow> GroupObj"
  arrs :: "ref \<Rightarrow> Item slot list"
  lim :: ref

text \<open>The group an object stands for, and the list of groups an array of references stands for.\<close>

definition group_at :: "store \<Rightarrow> ref \<Rightarrow> Group" where
  "group_at s r =
     \<lparr>id_group = id_obj (objs s r), title = title_obj (objs s r),
      items = arrs s (items_ref (objs s r)), isCollapsed = isCollapsed_obj (objs s r)\<rparr>"

definition snapshot :: "store \<Rightarrow> ref slot list \<Rightarrow> Groups" where
  "snapshot s groups = map (map_slot (group_at s)) groups"

text \<open>
  A store holds a list of groups without sharing when the groups at different positions
  have different items arrays (so they are different objects too), all allocated below
  the limit.
\<close>

definition store_ok :: "store \<Rightarrow> ref slot list \<Rightarrow> bool" where
  "store_ok s groups =
     (distinct (map (\<lambda>r. items_ref (objs s r)) (defs groups)) \<and>
      (\<forall>r \<in> set (defs groups). items_ref (objs s r) < lim s))"

text \<open>
  Each updater returns the store as its writes left it, and the new array of references, or
  \<open>None\<close> when it throws; the writes made before a throw stay in the store.
\<close>

definition moveToEnd_st ::
  "store \<Rightarrow> ref slot list \<Rightarrow> string option \<Rightarrow> string \<Rightarrow> string option \<Rightarrow> store \<times> ref slot list option" where
  "moveToEnd_st s groups activeGroup activeId targetGroupId =
     (case findIndex (\<lambda>g. Some (id_obj (objs s g)) = activeGroup) groups of
        None \<Rightarrow> (s, None)
      | Some sourceGroupIndex \<Rightarrow>
     (case deref (at_index groups sourceGroupIndex) of
        None \<Rightarrow> (s, None)
      | Some src \<Rightarrow>
     (case findIndex (\<lambda>i. id_item i = activeId) (arrs s (items_ref (objs s src))) of
        None \<Rightarrow> (s, None)
      | Some itemIndex \<Rightarrow>
     (let (removed, rest) = splice (arrs s (items_ref (objs s src))) itemIndex 1 [];
          movedItem = first removed;
          s1 = s\<lparr>arrs := (arrs s)(items_ref (objs s src) := rest)\<rparr>
      in
     (case findIndex (\<lambda>g. Some (id_obj (objs s1 g)) = targetGroupId) groups of
        None \<Rightarrow> (s1, None)
      | Some targetGroupIndex \<Rightarrow>
     (case deref (at_index groups targetGroupIndex) of
        None \<Rightarrow> (s1, None)
      | Some tgt \<Rightarrow>
          (s1\<lparr>arrs := (arrs s1)(items_ref (objs s1 tgt) :=
                          arrs s1 (items_ref (objs s1 tgt)) @ [movedItem])\<rparr>,
           Some groups)))))))"

text \<open>
  In the same-group branch \<open>arrayMove\<close> builds a new array, and the assignment to
  \<open>updatedGroups[groupIndex].items\<close> writes its reference into the shared group object.
\<close>

definition moveOntoItem_st ::
  "store \<Rightarrow> ref slot list \<Rightarrow> string option \<Rightarrow> string \<Rightarrow> string option \<Rightarrow> string
     \<Rightarrow> store \<times> ref slot list option" where
  "moveOntoItem_st s groups activeGroup activeId overGroup overId =
     (if activeGroup = overGroup then
        (case findIndex (\<lambda>g. Some (id_obj (objs s g)) = activeGroup) groups of
           None \<Rightarrow> (s, None)
         | Some groupIndex \<Rightarrow>
        (case deref (at_index groups groupIndex) of
           None \<Rightarrow> (s, None)
         | Some grp \<Rightarrow>
        (case findIndex (\<lambda>i. id_item i = activeId) (arrs s (items_ref (objs s grp))) of
           None \<Rightarrow> (s, None)
         | Some oldIndex \<Rightarrow>
        (case findIndex (\<lambda>i. id_item i = overId) (arrs s (items_ref (objs s grp))) of
           None \<Rightarrow> (s, None)
         | Some newIndex \<Rightarrow>
             (s\<lparr>arrs := (arrs s)(lim s := arrayMove (arrs s (items_ref (objs s grp))) oldIndex newIndex),
                objs := (objs s)(grp := (objs s grp)\<lparr>items_ref := lim s\<rparr>),
                lim := Suc (lim s)\<rparr>,
              Some groups)))))
      else
        (case findIndex (\<lambda>g. Some (id_obj (objs s g)) = activeGroup) groups of
           None \<Rightarrow> (s, None)
         | Some sourceGroupIndex \<Rightarrow>
        (case deref (at_index groups sourceGroupIndex) of
           None \<Rightarrow> (s, None)
         | Some src \<Rightarrow>
        (case findIndex (\<lambda>i. id_item i = activeId) (arrs s (items_ref (objs s src))) of
           None \<Rightarrow> (s, None)
         | Some itemIndex \<Rightarrow>
        (let (removed, rest) = splice (arrs s (items_ref (objs s src))) itemIndex 1 [];
             movedItem = first removed;
             s1 = s\<lparr>arrs := (arrs s)(items_ref (objs s src) := rest)\<rparr>
         in
        (case findIndex (\<lambda>g. Some (id_obj (objs s1 g)) = overGroup) groups of
           None \<Rightarrow> (s1, None)
         | Some targetGroupIndex \<Rightarrow>
        (case deref (at_index groups targetGroupIndex) of
           None \<Rightarrow> (s1, None)
         | Some tgt \<Rightarrow>
        (case findIndex (\<lambda>i. id_item i = overId) (arrs s1 (items_ref (objs s1 tgt))) of
           None \<Rightarrow> (s1, None)
         | Some targetIndex \<Rightarrow>
             (s1\<lparr>arrs := (arrs s1)(items_ref (objs s1 tgt) :=
                             snd (splice (arrs s1 (items_ref (objs s1 tgt))) targetIndex 0 [movedItem]))\<rparr>,
              Some groups)))))))))"

definition moveGroup_st ::
  "store \<Rightarrow> ref slot list \<Rightarrow> string \<Rightarrow> string option \<Rightarrow> store \<times> ref slot list option" where
  "moveGroup_st s groups activeId overGroupId =
     (case findIndex (\<lambda>g. id_obj (objs s g) = activeId) groups of
        None \<Rightarrow> (s, None)
      | Some oldIndex \<Rightarrow>
     (case findIndex (\<lambda>g. Some (id_obj (objs s g)) = overGroupId) groups of
        None \<Rightarrow> (s, None)
      | Some newIndex \<Rightarrow> (s, Some (arrayMove groups oldIndex newIndex))))"

definition handleDragEnd_st :: "store \<Rightarrow> ref slot list \<Rightarrow> DragEvent \<Rightarrow> store \<times> ref slot list option" where
  "handleDragEnd_st s groups event =
     (case over event of
        None \<Rightarrow> (s, Some groups)
      | Some ov \<Rightarrow>
          (let act = active event;
               activeType = type_el act;
               overType = type_el ov;
               overId = id_el ov
           in if activeType = Some Group_type \<and> id_el act \<noteq> id_el ov then
                (let overGroupId = (if overType = Some Group_type then Some (id_el ov) else groupId ov)
                 in if truthy overGroupId then moveGroup_st s groups (id_el act) overGroupId
                    else (s, Some groups))
              else if activeType = Some Item_type then
                (let activeGroup = groupId act
                 in if overType = Some Empty_type then
                      moveToEnd_st s groups activeGroup (id_el act) (groupId ov)
                    else if overType = Some Group_type then
                      moveToEnd_st s groups activeGroup (id_el act) (Some overId)
                    else if overType = Some Item_type \<and> id_el act \<noteq> id_el ov then
                      moveOntoItem_st s groups activeGroup (id_el act) (groupId ov) overId
                    else (s, Some groups))
              else (s, Some groups)))"

text \<open>
  A sequence of drag-end events on a store: each event is applied to the store and the
  array the previous one left, and a throw ends the sequence.
\<close>

fun run_st :: "store \<Rightarrow> ref slot list \<Rightarrow> DragEvent list \<Rightarrow> store \<times> ref slot list option" where
  "run_st s groups [] = (s, Some groups)"
| "run_st s groups (e # es) =
     (case handleDragEnd_st s groups e of
        (s', None) \<Rightarrow> (s', None)
      | (s', Some groups') \<Rightarrow> run_st s' groups' es)"

section \<open>Collapse toggle: \<open>handleToggleCollapse\<close>\<close>

text \<open>
  \<open>group.isCollapsed\<close> is read by its truthiness only (\<open>!group.isCollapsed\<close>, and the
  conditional rendering): an absent field reads as not collapsed.
\<close>

definition collapsed :: "Group \<Rightarrow> bool" where
  "collapsed g = (isCollapsed g = Some True)"

text \<open>
  \<open>prevGroups.map((group) => f(group))\<close> with a callback that reads \<open>group.id\<close>: a new
  array of the same length; the callback throws at an \<open>undefined\<close> element.
\<close>

fun mapGroups :: "(Group \<Rightarrow> Group) \<Rightarrow> Groups \<Rightarrow> Groups option" where
  "mapGroups f [] = Some []"
| "mapGroups f (Undefined # gs) = None"
| "mapGroups f (Def g # gs) = map_option ((#) (Def (f g))) (mapGroups f gs)"

text \<open>The callback: \<open>group.id === groupId ? { ...group, isCollapsed: !group.isCollapsed } : group\<close>\<close>

definition toggled :: "string \<Rightarrow> Group \<Rightarrow> Group" where
  "toggled gid grp =
     (if id_group grp = gid then grp\<lparr>isCollapsed := Some (\<not> collapsed grp)\<rparr> else grp)"

definition handleToggleCollapse :: "Groups \<Rightarrow> string \<Rightarrow> Groups option" where
  "handleToggleCollapse prevGroups gid = mapGroups (toggled gid) prevGroups"

section \<open>Drop indicator: \<open>getItemNumber\<close> and \<open>handleDragMove\<close>\<close>

text \<open>
  A JavaScript number that holds an integer. Up to \<open>2^53\<close> a double holds every integer
  exactly; above, \<open>parseInt\<close> rounds, and the rounded value is not modelled.
\<close>

datatype number = Exact int | Rounded

definition is_digit :: "char \<Rightarrow> bool" where
  "is_digit c = (c \<in> set ''0123456789'')"

text \<open>
  \<open>itemId.match(/item-(\d+)/)\<close>: the first capture group of the leftmost match, that is
  the longest run of digits after the first \<open>item-\<close> that is followed by a digit; \<open>None\<close>
  when the pattern does not occur (\<open>match\<close> returns \<open>null\<close>).
\<close>

fun match_item :: "string \<Rightarrow> string option" where
  "match_item [] = None"
| "match_item (c # cs) =
     (let ds = takeWhile is_digit (drop 5 (c # cs))
      in if take 5 (c # cs) = ''item-'' \<and> ds \<noteq> [] then Some ds else match_item cs)"

definition digit_val :: "char \<Rightarrow> int" where
  "digit_val c = int (of_char c) - 48"

text \<open>\<open>Number.parseInt(ds, 10)\<close> on a non-empty string of digits.\<close>

definition parseInt10 :: "string \<Rightarrow> number" where
  "parseInt10 ds =
     (let n = foldl (\<lambda>a c. 10 * a + digit_val c) 0 ds
      in if n \<le> 2 ^ 53 then Exact n else Rounded)"

text \<open>Extract item ID number from string (e.g., "item-3" -> 3); \<open>None\<close> is \<open>null\<close>.\<close>

definition getItemNumber :: "string \<Rightarrow> number option" where
  "getItemNumber itemId = map_option parseInt10 (match_item itemId)"

text \<open>\<open>overItemNumber - 1\<close>\<close>

fun minus_one :: "number \<Rightarrow> number" where
  "minus_one (Exact n) = Exact (n - 1)"
| "minus_one Rounded = Rounded"

text \<open>
  \<open>interface DropIndicator { groupId: string; itemIndex: number | null }\<close>. The group id
  comes from \<open>over.data.current?.groupId as string\<close>, which is \<open>undefined\<close> (\<open>None\<close>) when
  the hovered element carries none; \<open>itemIndex = None\<close> is \<open>null\<close>, the end of the group.
\<close>

record DropIndicator =
  groupId_ind :: "string option"
  itemIndex :: "number option"

text \<open>
  \<open>handleDragMove\<close> as a function of the \<open>dropIndicator\<close> state (\<open>None\<close> is \<open>null\<close>): on
  the paths that call no setter the previous indicator stays. The handler does not read
  \<open>groups\<close>.
\<close>

definition handleDragMove :: "DropIndicator option \<Rightarrow> DragEvent \<Rightarrow> DropIndicator option" where
  "handleDragMove dropIndicator event =
     (case over event of
        None \<Rightarrow> None
      | Some ov \<Rightarrow>
          if type_el (active event) \<noteq> Some Item_type then None
          else
            (let overType = type_el ov;
                 overGroupId = (if overType = Some Group_type then Some (id_el ov) else groupId ov)
             in if overType = Some Empty_type then
                  Some \<lparr>groupId_ind = overGroupId, itemIndex = None\<rparr>
                else if overType = Some Group_type then
                  Some \<lparr>groupId_ind = Some (id_el ov), itemIndex = Some (Exact 0)\<rparr>
                else if overType = Some Item_type then
                  (case getItemNumber (id_el ov) of
                     Some overItemNumber \<Rightarrow>
                       Some \<lparr>groupId_ind = overGroupId, itemIndex = Some (minus_one overItemNumber)\<rparr>
                   | None \<Rightarrow> dropIndicator)
                else dropIndicator))"

text \<open>
  \<open>SortableItem\<close> shows the placeholder before the item whose id is
  \<open>`item-${dropIndicator.itemIndex + 1}`\<close>, in the indicator's group: the consumer
  of \<open>itemIndex\<close> reads it as an item number, as \<open>handleDragMove\<close> wrote it. In the
  template string an integer prints as its decimal digits, with a minus sign when it is
  negative; the result is \<open>None\<close> where the number is rounded and not modelled.
\<close>

fun digits_of :: "nat \<Rightarrow> string" where
  "digits_of n =
     (if n < 10 then [char_of (48 + n)] else digits_of (n div 10) @ [char_of (48 + n mod 10)])"

declare digits_of.simps [simp del]

definition show_int :: "int \<Rightarrow> string" where
  "show_int m = (if m < 0 then ''-'' @ digits_of (nat (- m)) else digits_of (nat m))"

definition showDropIndicatorBefore :: "Item \<Rightarrow> string \<Rightarrow> DropIndicator option \<Rightarrow> bool option" where
  "showDropIndicatorBefore item gid dropIndicator =
     (case dropIndicator of
        None \<Rightarrow> Some False
      | Some d \<Rightarrow>
          (case itemIndex d of
             None \<Rightarrow> Some False
           | Some Rounded \<Rightarrow> if groupId_ind d = Some gid then None else Some False
           | Some (Exact n) \<Rightarrow>
               Some (groupId_ind d = Some gid \<and> id_item item = ''item-'' @ show_int (n + 1))))"

section \<open>Reading a model\<close>

text \<open>The ids of the items of one group, and of the whole list, in display order.\<close>

definition group_item_ids :: "Group \<Rightarrow> string list" where
  "group_item_ids g = map id_item (defs (items g))"

definition all_item_ids :: "Groups \<Rightarrow> string list" where
  "all_item_ids gs = concat (map group_item_ids (defs gs))"

text \<open>
  A model as its TypeScript type and the invariants of the data model describe it: no
  \<open>undefined\<close> in any array, group ids unique, item ids unique in the whole list.
\<close>

definition typed :: "Groups \<Rightarrow> bool" where
  "typed gs = (list_all is_def gs \<and> list_all (\<lambda>g. list_all is_def (items g)) (defs gs))"

definition valid_model :: "Groups \<Rightarrow> bool" where
  "valid_model gs =
     (typed gs \<and> distinct (map id_group (defs gs)) \<and> distinct (all_item_ids gs))"

text \<open>
  A group without its items (id, title and collapsed flag), and the list of groups as the
  sequence of these.
\<close>

definition header :: "Group \<Rightarrow> Group" where
  "header g = g\<lparr>items := []\<rparr>"

definition headers :: "Groups \<Rightarrow> Groups" where
  "headers gs = map (map_slot header) gs"

text \<open>
  The group a drop target belongs to, as both handlers compute it:
  \<open>overType === "group" ? over.id : over.data.current?.groupId\<close>.
\<close>

definition overGroupId :: "Element \<Rightarrow> string option" where
  "overGroupId ov = (if type_el ov = Some Group_type then Some (id_el ov) else groupId ov)"

text \<open>
  An event resolves in a model when every id it refers to names an entity of the model:
  the dragged group, or the dragged item inside the group its metadata names, and the
  group of the drop target, or the hovered item inside the group its metadata names.
\<close>

definition has_group :: "Groups \<Rightarrow> string option \<Rightarrow> bool" where
  "has_group gs gid = (\<exists>g \<in> set (defs gs). Some (id_group g) = gid)"

definition has_item_in :: "Groups \<Rightarrow> string option \<Rightarrow> string \<Rightarrow> bool" where
  "has_item_in gs gid iid =
     (\<exists>g \<in> set (defs gs). Some (id_group g) = gid \<and> iid \<in> set (group_item_ids g))"

definition resolves :: "Groups \<Rightarrow> DragEvent \<Rightarrow> bool" where
  "resolves gs ev =
     (case over ev of
        None \<Rightarrow> True
      | Some ov \<Rightarrow>
          (case type_el (active ev) of
             Some Group_type \<Rightarrow>
               has_group gs (Some (id_el (active ev))) \<and> has_group gs (overGroupId ov)
           | Some Item_type \<Rightarrow>
               has_item_in gs (groupId (active ev)) (id_el (active ev)) \<and>
               (case type_el ov of
                  Some Item_type \<Rightarrow> has_item_in gs (groupId ov) (id_el ov)
                | Some _ \<Rightarrow> has_group gs (overGroupId ov)
                | None \<Rightarrow> True)
           | _ \<Rightarrow> True))"



section \<open>Draggable elements and seed data\<close>

text \<open>
  The elements as the components register them with \<open>useSortable\<close>: \<open>SortableItem\<close>
  (\<open>id: item.id, data: { type: "item", item, groupId }\<close>), \<open>EmptyItem\<close>
  (\<open>id: `empty-${groupId}`, data: { type: "empty", groupId }\<close>) and \<open>SortableGroup\<close>
  (\<open>id: group.id, data: { type: "group", group }\<close>).
\<close>

definition SortableItem :: "Item \<Rightarrow> string \<Rightarrow> Element" where
  "SortableItem item gid = \<lparr>id_el = id_item item, type_el = Some Item_type, groupId = Some gid\<rparr>"

definition EmptyItem :: "string \<Rightarrow> Element" where
  "EmptyItem gid = \<lparr>id_el = ''empty-'' @ gid, type_el = Some Empty_type, groupId = Some gid\<rparr>"

definition SortableGroup :: "Group \<Rightarrow> Element" where
  "SortableGroup grp = \<lparr>id_el = id_group grp, type_el = Some Group_type, groupId = None\<rparr>"

text \<open>The seed data of the component.\<close>

definition mkItem :: "string \<Rightarrow> string \<Rightarrow> Item" where
  "mkItem i c = \<lparr>id_item = i, content = c\<rparr>"

definition group1 :: Group where
  "group1 = \<lparr>id_group = ''group-1'', title = ''To Do'',
              items = [Def (mkItem ''item-1'' ''Research project requirements''),
                       Def (mkItem ''item-2'' ''Create project plan''),
                       Def (mkItem ''item-3'' ''Set up development environment'')],
              isCollapsed = None\<rparr>"

definition group2 :: Group where
  "group2 = \<lparr>id_group = ''group-2'', title = ''In Progress'',
              items = [Def (mkItem ''item-4'' ''Implement core features''),
                       Def (mkItem ''item-5'' ''Design user interface'')],
              isCollapsed = None\<rparr>"

definition group3 :: Group where
  "group3 = \<lparr>id_group = ''group-3'', title = ''Completed'',
              items = [Def (mkItem ''item-6'' ''Project kickoff meeting''),
                       Def (mkItem ''item-7'' ''Requirements gathering'')],
              isCollapsed = None\<rparr>"

definition initialGroups :: Groups where
  "initialGroups = [Def group1, Def group2, Def group3]"


text \<open>
  The seed data in a store: the three group objects at the references 0, 1 and 2, each
  with its own items array.
\<close>

definition initialStore :: store where
  "initialStore =
     \<lparr>objs = (\<lambda>r. \<lparr>id_obj = id_group (if r = 0 then group1 else if r = 1 then group2 else group3),
                    title_obj = title (if r = 0 then group1 else if r = 1 then group2 else group3),
                    items_ref = r,
                    isCollapsed_obj = None\<rparr>),
      arrs = (\<lambda>r. if r = 0 then items group1 else if r = 1 then items group2
                   else if r = 2 then items group3 else []),
      lim = 3\<rparr>"

definition initialRefs :: "ref slot list" where
  "initialRefs = [Def 0, Def 1, Def 2]"

section \<open>Facts about the array primitives\<close>

lemma findIndex_from_first:
  "i < length xs \<Longrightarrow> xs ! i = Def v \<Longrightarrow> p v \<Longrightarrow> (\<forall>j<i. \<exists>w. xs ! j = Def w \<and> \<not> p w)
   \<Longrightarrow> findIndex_from k p xs = Some (int (k + i))"
proof (induction k p xs arbitrary: i rule: findIndex_from.induct)
  case (1 k p)
  then show ?case by simp
next
  case (2 k p xs)
  then show ?case by (cases i) auto
next
  case (3 k p w xs)
  show ?case
  proof (cases i)
    case 0
    with 3 show ?thesis by simp
  next
    case (Suc n)
    from 3(5) Suc have "\<not> p w" by fastforce
    moreover have "findIndex_from (Suc k) p xs = Some (int (Suc k + n))"
    proof (rule 3(1))
      show "\<not> p w" by fact
      show "n < length xs" using 3(2) Suc by simp
      show "xs ! n = Def v" using 3(3) Suc by simp
      show "p v" by fact
      show "\<forall>j<n. \<exists>w. xs ! j = Def w \<and> \<not> p w" using 3(5) Suc by fastforce
    qed
    ultimately show ?thesis using Suc by simp
  qed
qed

lemma findIndex_first:
  "i < length xs \<Longrightarrow> xs ! i = Def v \<Longrightarrow> p v \<Longrightarrow> (\<forall>j<i. \<exists>w. xs ! j = Def w \<and> \<not> p w)
   \<Longrightarrow> findIndex p xs = Some (int i)"
  using findIndex_from_first [of i xs v p 0] by (simp add: findIndex_def)

lemma findIndex_from_absent:
  "list_all is_def xs \<Longrightarrow> \<forall>v \<in> set (defs xs). \<not> p v \<Longrightarrow> findIndex_from k p xs = Some (- 1)"
  by (induction k p xs rule: findIndex_from.induct) auto

lemma findIndex_absent:
  "list_all is_def xs \<Longrightarrow> \<forall>v \<in> set (defs xs). \<not> p v \<Longrightarrow> findIndex p xs = Some (- 1)"
  by (simp add: findIndex_def findIndex_from_absent)

lemma findIndex_from_found:
  "findIndex_from k p xs = Some r \<Longrightarrow> r \<noteq> - 1 \<Longrightarrow>
     int k \<le> r \<and> nat r - k < length xs \<and> (\<exists>v. xs ! (nat r - k) = Def v \<and> p v)"
proof (induction k p xs rule: findIndex_from.induct)
  case (1 k p)
  then show ?case by simp
next
  case (2 k p xs)
  then show ?case by simp
next
  case (3 k p w xs)
  show ?case
  proof (cases "p w")
    case True
    with 3 show ?thesis by auto
  next
    case False
    with 3 have ih: "int (Suc k) \<le> r \<and> nat r - Suc k < length xs \<and> (\<exists>v. xs ! (nat r - Suc k) = Def v \<and> p v)"
      by simp
    then have "nat r - k = Suc (nat r - Suc k)" by linarith
    with ih show ?thesis by auto
  qed
qed

lemma findIndex_found:
  "findIndex p xs = Some r \<Longrightarrow> r \<noteq> - 1 \<Longrightarrow>
     0 \<le> r \<and> nat r < length xs \<and> (\<exists>v. xs ! nat r = Def v \<and> p v)"
  using findIndex_from_found [of 0 p xs r] by (simp add: findIndex_def)

lemma deref_at_index:
  "deref (at_index xs r) = Some v \<longleftrightarrow> 0 \<le> r \<and> nat r < length xs \<and> xs ! nat r = Def v"
  by (cases "xs ! nat r") (auto simp: at_index_def)

lemma defs_nth_mem: "i < length xs \<Longrightarrow> xs ! i = Def v \<Longrightarrow> v \<in> set (defs xs)"
proof (induction xs arbitrary: i rule: defs.induct)
  case 1
  then show ?case by simp
next
  case (2 xs)
  then show ?case by (cases i) auto
next
  case (3 w xs)
  then show ?case by (cases i) auto
qed

lemma defs_all_def: "list_all is_def xs \<Longrightarrow> map Def (defs xs) = xs"
  by (induction xs rule: defs.induct) auto

lemma length_defs_all_def: "list_all is_def xs \<Longrightarrow> length (defs xs) = length xs"
  by (induction xs rule: defs.induct) auto

lemma nth_defs_all_def: "list_all is_def xs \<Longrightarrow> i < length xs \<Longrightarrow> xs ! i = Def (defs xs ! i)"
  using defs_all_def [of xs] length_defs_all_def [of xs]
  by (metis nth_map)

text \<open>With unique keys, a key is found where it is.\<close>
lemma findIndex_unique:
  assumes "list_all is_def xs" and "distinct (map key (defs xs))"
    and "i < length xs" and "xs ! i = Def v"
  shows "findIndex (\<lambda>x. key x = key v) xs = Some (int i)"
proof (rule findIndex_first [OF assms(3,4)])
  show "key v = key v" by simp
  show "\<forall>j<i. \<exists>w. xs ! j = Def w \<and> key w \<noteq> key v"
  proof (intro allI impI)
    fix j assume "j < i"
    then have j: "j < length xs" using assms(3) by simp
    have "xs ! j = Def (defs xs ! j)" by (rule nth_defs_all_def [OF assms(1) j])
    moreover have "defs xs ! i = v" using nth_defs_all_def [OF assms(1,3)] assms(4) by simp
    moreover have "key (defs xs ! j) \<noteq> key (defs xs ! i)"
      using assms(2) \<open>j < i\<close> assms(3) length_defs_all_def [OF assms(1)]
      by (simp add: distinct_conv_nth)
    ultimately show "\<exists>w. xs ! j = Def w \<and> key w \<noteq> key v" by auto
  qed
qed

lemma splice_remove_at:
  "k < length xs \<Longrightarrow> splice xs (int k) (Suc 0) [] = ([xs ! k], take k xs @ drop (Suc k) xs)"
  by (simp add: splice_def splice_start_def Let_def take_Suc_conv_app_nth [of 0] hd_drop_conv_nth
      take_Suc min_def)

lemma splice_insert_at:
  "j \<le> length xs \<Longrightarrow> splice xs (int j) 0 [y] = ([], take j xs @ y # drop j xs)"
  by (simp add: splice_def splice_start_def Let_def min_def)

lemma splice_mset:
  "mset (fst (splice xs s d ins)) + mset (snd (splice xs s d ins)) = mset xs + mset ins"
proof -
  define a where "a = splice_start (length xs) s"
  define b where "b = min d (length xs - a)"
  have "mset xs = mset (take a xs) + mset (drop a xs)"
    by (metis append_take_drop_id mset_append)
  also have "mset (drop a xs) = mset (take b (drop a xs)) + mset (drop b (drop a xs))"
    by (metis append_take_drop_id mset_append)
  finally have "mset xs = mset (take a xs) + mset (take b (drop a xs)) + mset (drop (a + b) xs)"
    by (simp add: add.commute add.assoc)
  then show ?thesis
    by (simp add: splice_def Let_def a_def b_def add.commute)
qed

lemma splice_removed_length: "length (fst (splice xs s (Suc 0) ins)) \<le> Suc 0"
  by (simp add: splice_def Let_def)

lemma defs_append: "defs (xs @ ys) = defs xs @ defs ys"
  by (induction xs rule: defs.induct) auto

lemma mset_defs_filter: "mset (defs xs) = image_mset (\<lambda>s. case s of Def v \<Rightarrow> v) (filter_mset is_def (mset xs))"
  by (induction xs rule: defs.induct) auto

lemma mset_defs_cong: "mset xs = mset ys \<Longrightarrow> mset (defs xs) = mset (defs ys)"
  by (simp add: mset_defs_filter)

lemma first_short: "length r \<le> Suc 0 \<Longrightarrow> mset (defs [first r]) = mset (defs r)"
  by (cases r) auto

text \<open>What splice(i, 1) takes out and hands on as the moved element, together with the
  rest, holds the defined elements of the array.\<close>
lemma splice_take_one_defs:
  "splice xs s (Suc 0) [] = (removed, rest) \<Longrightarrow>
     mset (defs [first removed]) + mset (defs rest) = mset (defs xs)"
proof -
  assume h: "splice xs s (Suc 0) [] = (removed, rest)"
  have "length removed \<le> Suc 0" using splice_removed_length [of xs s "[]"] h by simp
  then have "mset (defs [first removed]) = mset (defs removed)" by (rule first_short)
  moreover have "mset removed + mset rest = mset xs" using splice_mset [of xs s "Suc 0" "[]"] h by simp
  then have "mset (defs (removed @ rest)) = mset (defs xs)" by (intro mset_defs_cong) simp
  ultimately show ?thesis by (simp add: defs_append)
qed

lemma splice_insert_defs:
  "mset (defs (snd (splice xs s 0 ins))) = mset (defs xs) + mset (defs ins)"
proof -
  have "fst (splice xs s 0 ins) = []" by (simp add: splice_def Let_def)
  then have "mset (snd (splice xs s 0 ins)) = mset (xs @ ins)" using splice_mset [of xs s 0 ins] by simp
  then have "mset (defs (snd (splice xs s 0 ins))) = mset (defs (xs @ ins))" by (rule mset_defs_cong)
  then show ?thesis by (simp add: defs_append)
qed

lemma arrayMove_defs: "mset (defs (arrayMove xs f t)) = mset (defs xs)"
proof -
  obtain removed rest where h: "splice xs f (Suc 0) [] = (removed, rest)" by (cases "splice xs f (Suc 0) []")
  from splice_take_one_defs [OF h] show ?thesis
    by (simp add: arrayMove_def Let_def h splice_insert_defs add.commute)
qed

lemma arrayMove_in_range:
  assumes "f < length xs" and "t < length xs"
  shows "arrayMove xs (int f) (int t) =
           take t (take f xs @ drop (Suc f) xs) @ xs ! f # drop t (take f xs @ drop (Suc f) xs)"
proof -
  have "t \<le> length (take f xs @ drop (Suc f) xs)" using assms by simp
  then show ?thesis
    using assms by (simp add: arrayMove_def Let_def splice_remove_at splice_insert_at del: take_append drop_append)
qed

lemma arrayMove_length: "f < length xs \<Longrightarrow> t < length xs \<Longrightarrow> length (arrayMove xs (int f) (int t)) = length xs"
  by (simp add: arrayMove_in_range)

lemma defs_map_Def: "defs (map Def xs) = xs"
  by (induction xs) auto

lemma all_def_map_Def: "list_all is_def (map Def xs)"
  by (induction xs) auto

lemma mapGroups_all_def:
  "list_all is_def gs \<Longrightarrow> mapGroups f gs = Some (map Def (map f (defs gs)))"
  by (induction f gs rule: mapGroups.induct) auto

lemma handleToggleCollapse_all_def:
  "list_all is_def gs \<Longrightarrow> handleToggleCollapse gs gid = Some (map Def (map (toggled gid) (defs gs)))"
  unfolding handleToggleCollapse_def by (rule mapGroups_all_def)

lemma toggled_fields:
  "id_group (toggled gid g) = id_group g" "title (toggled gid g) = title g"
  "items (toggled gid g) = items g"
  "collapsed (toggled gid g) = (if id_group g = gid then \<not> collapsed g else collapsed g)"
  "id_group g \<noteq> gid \<Longrightarrow> toggled gid g = g"
  by (auto simp: toggled_def collapsed_def)

lemma toggled_twice:
  "collapsed (toggled gid (toggled gid g)) = collapsed g"
  "(toggled gid (toggled gid g))\<lparr>isCollapsed := isCollapsed g\<rparr> = g"
  by (auto simp: toggled_def collapsed_def)


section \<open>Collapse toggle\<close>

text \<open>
  Claim C9. On a list of groups (no \<open>undefined\<close> element), \<open>handleToggleCollapse\<close>
  always returns: the list has the same length, the group with the given id has its
  collapsed flag flipped and its id, title and items kept, every other group is the same
  group; an id that names no group leaves the list as it was; and toggling the same id
  twice gives back every group with its collapsed flag as it was read before (the stored
  field is the only thing that can differ: an absent field comes back as \<open>false\<close>, and
  both read as not collapsed).
\<close>

theorem toggleCollapse_flips_named_group:
  assumes "list_all is_def groups"
  shows "\<exists>gs'. handleToggleCollapse groups gid = Some gs' \<and> length gs' = length groups
     \<and> (\<forall>i<length groups. \<forall>g. groups ! i = Def g \<longrightarrow>
           (\<exists>g'. gs' ! i = Def g' \<and> id_group g' = id_group g \<and> title g' = title g
                \<and> items g' = items g
                \<and> collapsed g' = (if id_group g = gid then \<not> collapsed g else collapsed g)
                \<and> (id_group g \<noteq> gid \<longrightarrow> g' = g)))
     \<and> (gid \<notin> set (map id_group (defs groups)) \<longrightarrow> gs' = groups)
     \<and> (\<exists>gs''. handleToggleCollapse gs' gid = Some gs'' \<and> length gs'' = length groups
           \<and> (\<forall>i<length groups. \<forall>g. groups ! i = Def g \<longrightarrow>
                 (\<exists>g''. gs'' ! i = Def g'' \<and> collapsed g'' = collapsed g
                       \<and> g''\<lparr>isCollapsed := isCollapsed g\<rparr> = g)))"
proof -
  let ?gs' = "map Def (map (toggled gid) (defs groups))"
  let ?gs'' = "map Def (map (toggled gid) (map (toggled gid) (defs groups)))"
  have len: "length (defs groups) = length groups" by (rule length_defs_all_def [OF assms])
  have nth: "defs groups ! i = g" if "i < length groups" "groups ! i = Def g" for i g
    using nth_defs_all_def [OF assms that(1)] that(2) by simp
  have 1: "handleToggleCollapse groups gid = Some ?gs'"
    by (rule handleToggleCollapse_all_def [OF assms])
  have 2: "length ?gs' = length groups" using len by simp
  have 3: "\<exists>g'. ?gs' ! i = Def g' \<and> id_group g' = id_group g \<and> title g' = title g
                \<and> items g' = items g
                \<and> collapsed g' = (if id_group g = gid then \<not> collapsed g else collapsed g)
                \<and> (id_group g \<noteq> gid \<longrightarrow> g' = g)"
    if "i < length groups" "groups ! i = Def g" for i g
    using that len nth [OF that] by (simp add: toggled_fields)
  have 4: "?gs' = groups" if "gid \<notin> set (map id_group (defs groups))"
  proof -
    have "map (toggled gid) (defs groups) = defs groups"
      using that by (intro map_idI) (auto simp: toggled_def)
    then show ?thesis by (simp add: defs_all_def [OF assms])
  qed
  have 5: "handleToggleCollapse ?gs' gid = Some ?gs''"
    by (simp only: handleToggleCollapse_all_def [OF all_def_map_Def] defs_map_Def)
  have 6: "length ?gs'' = length groups" using len by simp
  have 7: "\<exists>g''. ?gs'' ! i = Def g'' \<and> collapsed g'' = collapsed g \<and> g''\<lparr>isCollapsed := isCollapsed g\<rparr> = g"
    if "i < length groups" "groups ! i = Def g" for i g
    using that len nth [OF that] by (simp add: toggled_twice)
  show ?thesis
    using 1 2 3 4 5 6 7 by blast
qed

theorem toggleCollapse_flips_named_group_witness:
  "list_all is_def initialGroups \<and>
   (\<exists>gs'. handleToggleCollapse initialGroups ''group-2'' = Some gs' \<and> length gs' = 3 \<and>
      (\<exists>g'. gs' ! 1 = Def g' \<and> collapsed g' \<and> items g' = items group2) \<and>
      gs' ! 0 = Def group1 \<and>
      (\<exists>gs''. handleToggleCollapse gs' ''group-2'' = Some gs'' \<and>
         (\<exists>g''. gs'' ! 1 = Def g'' \<and> \<not> collapsed g'')))"
proof -
  have h: "list_all is_def initialGroups" by (simp add: initialGroups_def)
  have g1: "initialGroups ! 1 = Def group2" by (simp add: initialGroups_def)
  have g0: "initialGroups ! 0 = Def group1" by (simp add: initialGroups_def)
  have l: "length initialGroups = 3" by (simp add: initialGroups_def)
  from toggleCollapse_flips_named_group [OF h, of "''group-2''"]
  obtain gs' gs'' where a: "handleToggleCollapse initialGroups ''group-2'' = Some gs'"
      "length gs' = length initialGroups"
    and b: "\<forall>i<length initialGroups. \<forall>g. initialGroups ! i = Def g \<longrightarrow>
           (\<exists>g'. gs' ! i = Def g' \<and> id_group g' = id_group g \<and> title g' = title g
                \<and> items g' = items g
                \<and> collapsed g' = (if id_group g = ''group-2'' then \<not> collapsed g else collapsed g)
                \<and> (id_group g \<noteq> ''group-2'' \<longrightarrow> g' = g))"
    and c: "handleToggleCollapse gs' ''group-2'' = Some gs''"
    and d: "\<forall>i<length initialGroups. \<forall>g. initialGroups ! i = Def g \<longrightarrow>
                 (\<exists>g''. gs'' ! i = Def g'' \<and> collapsed g'' = collapsed g
                       \<and> g''\<lparr>isCollapsed := isCollapsed g\<rparr> = g)"
    by blast
  from b [rule_format, of 1, OF _ g1] l
  have b1: "\<exists>g'. gs' ! 1 = Def g' \<and> collapsed g' \<and> items g' = items group2"
    by (auto simp: collapsed_def group2_def)
  from b [rule_format, of 0, OF _ g0] l have b0: "gs' ! 0 = Def group1"
    by (auto simp: group1_def)
  from d [rule_format, of 1, OF _ g1] l have d1: "\<exists>g''. gs'' ! 1 = Def g'' \<and> \<not> collapsed g''"
    by (auto simp: collapsed_def group2_def)
  show ?thesis using h a l b1 b0 c d1 by auto
qed

section \<open>Valid models and the drop rules\<close>

lemma distinct_concat_nth:
  "distinct (concat xss) \<Longrightarrow> i < length xss \<Longrightarrow> distinct (xss ! i)"
  by (induction xss arbitrary: i) (auto simp: nth_Cons split: nat.splits)

lemma distinct_concat_disjoint:
  "distinct (concat xss) \<Longrightarrow> i < length xss \<Longrightarrow> j < length xss \<Longrightarrow> i \<noteq> j
     \<Longrightarrow> set (xss ! i) \<inter> set (xss ! j) = {}"
proof (induction xss arbitrary: i j)
  case Nil
  then show ?case by simp
next
  case (Cons xs xss)
  show ?case
  proof (cases i)
    case 0
    then obtain j' where j: "j = Suc j'" using Cons.prems(4) by (cases j) auto
    then have "xss ! j' \<in> set xss" using Cons.prems(3) by simp
    then show ?thesis using Cons.prems(1) 0 j by auto
  next
    case (Suc i')
    show ?thesis
    proof (cases j)
      case 0
      have "xss ! i' \<in> set xss" using Cons.prems(2) Suc by simp
      then show ?thesis using Cons.prems(1) 0 Suc by auto
    next
      case (Suc j')
      then show ?thesis using Cons.prems \<open>i = Suc i'\<close> Cons.IH [of i' j'] by simp
    qed
  qed
qed

lemma id_item_mem_ids:
  "k < length (items g) \<Longrightarrow> items g ! k = Def a \<Longrightarrow> id_item a \<in> set (group_item_ids g)"
  by (simp add: group_item_ids_def defs_nth_mem)

text \<open>What a valid model gives for the group at a position.\<close>
lemma valid_model_group:
  assumes "valid_model gs" and "i < length gs" and "gs ! i = Def g"
  shows "list_all is_def (items g)" and "distinct (map id_item (defs (items g)))"
proof -
  have ad: "list_all is_def gs" using assms(1) by (simp add: valid_model_def typed_def)
  have gi: "defs gs ! i = g" using nth_defs_all_def [OF ad assms(2)] assms(3) by simp
  have len: "length (defs gs) = length gs" by (rule length_defs_all_def [OF ad])
  then have mem: "g \<in> set (defs gs)" using gi assms(2) by (metis nth_mem)
  show "list_all is_def (items g)"
    using assms(1) mem by (simp add: valid_model_def typed_def list_all_iff)
  have "distinct (map group_item_ids (defs gs) ! i)"
    using assms(1,2) len by (intro distinct_concat_nth) (simp_all add: valid_model_def all_item_ids_def)
  then show "distinct (map id_item (defs (items g)))"
    using gi assms(2) len by (simp add: group_item_ids_def)
qed

lemma valid_model_groups:
  assumes "valid_model gs"
  shows "list_all is_def gs" and "distinct (map id_group (defs gs))"
  using assms by (simp_all add: valid_model_def typed_def)

lemma valid_model_other_group:
  assumes "valid_model gs" and "i < length gs" and "gs ! i = Def g"
    and "j < length gs" and "gs ! j = Def h" and "i \<noteq> j"
  shows "set (group_item_ids g) \<inter> set (group_item_ids h) = {}" and "id_group g \<noteq> id_group h"
proof -
  have ad: "list_all is_def gs" using assms(1) by (simp add: valid_model_def typed_def)
  have gi: "defs gs ! i = g" using nth_defs_all_def [OF ad assms(2)] assms(3) by simp
  have hj: "defs gs ! j = h" using nth_defs_all_def [OF ad assms(4)] assms(5) by simp
  have len: "length (defs gs) = length gs" by (rule length_defs_all_def [OF ad])
  have "set (map group_item_ids (defs gs) ! i) \<inter> set (map group_item_ids (defs gs) ! j) = {}"
    using assms(1,2,4,6) len
    by (intro distinct_concat_disjoint) (simp_all add: valid_model_def all_item_ids_def)
  then show "set (group_item_ids g) \<inter> set (group_item_ids h) = {}"
    using gi hj assms(2,4) len by simp
  have "distinct (map id_group (defs gs))" using assms(1) by (simp add: valid_model_def)
  then have "map id_group (defs gs) ! i \<noteq> map id_group (defs gs) ! j"
    using assms(2,4,6) len by (simp add: distinct_conv_nth)
  then show "id_group g \<noteq> id_group h" using gi hj assms(2,4) len by simp
qed

text \<open>Lookups in a valid model.\<close>
lemma find_group:
  assumes "valid_model gs" and "i < length gs" and "gs ! i = Def g"
  shows "findIndex (\<lambda>x. id_group x = id_group g) gs = Some (int i)"
  by (rule findIndex_unique [OF valid_model_groups [OF assms(1)] assms(2,3)])

lemma find_item:
  assumes "valid_model gs" and "i < length gs" and "gs ! i = Def g"
    and "k < length (items g)" and "items g ! k = Def a"
  shows "findIndex (\<lambda>x. id_item x = id_item a) (items g) = Some (int k)"
  by (rule findIndex_unique [OF valid_model_group [OF assms(1,2,3)] assms(4,5)])

lemma at_index_nat: "i < length xs \<Longrightarrow> at_index xs (int i) = xs ! i"
  by (simp add: at_index_def)

lemma moveGroup_valid:
  assumes v: "valid_model groups"
    and oi: "oi < length groups" "groups ! oi = Def g"
    and ni: "ni < length groups" "groups ! ni = Def h"
  shows "moveGroup groups (id_group g) (Some (id_group h)) =
           Some (take ni (take oi groups @ drop (Suc oi) groups) @ Def g #
                 drop ni (take oi groups @ drop (Suc oi) groups))"
  using find_group [OF v oi] find_group [OF v ni] oi ni
  by (simp add: moveGroup_def arrayMove_in_range)

text \<open>
  Claim C6. In a valid model, a dragged group that is dropped on another element whose
  owning group resolves (the hovered group header itself, or the non-empty \<open>groupId\<close> of a
  hovered item or placeholder) is taken out of its position \<open>oi\<close> and put back at the
  position \<open>ni\<close> of the target group, counted in the list without the dragged group:
  array-move, not insert-before. Seed example: dragging the third group onto the header of
  the first gives third, first, second.
\<close>

theorem group_drop_is_array_move:
  assumes "valid_model groups"
    and "oi < length groups" and "groups ! oi = Def g"
    and "ni < length groups" and "groups ! ni = Def h"
    and "type_el act = Some Group_type" and "id_el act = id_group g"
    and "(type_el ov = Some Group_type \<and> id_el ov = id_group h) \<or>
         (type_el ov \<noteq> Some Group_type \<and> groupId ov = Some (id_group h))"
    and "id_el ov \<noteq> id_el act"
    and "id_group h \<noteq> []"
  shows "handleDragEnd groups \<lparr>active = act, over = Some ov\<rparr> =
           Some (take ni (take oi groups @ drop (Suc oi) groups) @ Def g #
                 drop ni (take oi groups @ drop (Suc oi) groups))"
proof -
  have og: "(if type_el ov = Some Group_type then Some (id_el ov) else groupId ov) = Some (id_group h)"
    using assms(8) by auto
  have "handleDragEnd groups \<lparr>active = act, over = Some ov\<rparr> =
          moveGroup groups (id_group g) (Some (id_group h))"
    using assms(6,7,9,10) by (simp add: handleDragEnd_def Let_def og)
  then show ?thesis
    by (simp only: moveGroup_valid [OF assms(1-5)])
qed

lemma list_all_update: "list_all P xs \<Longrightarrow> P y \<Longrightarrow> list_all P (xs[i := y])"
  using set_update_subset_insert [of xs i y] by (auto simp: list_all_iff)

lemma moveOntoItem_same_group:
  assumes v: "valid_model groups"
    and gi: "gi < length groups" "groups ! gi = Def grp"
    and k: "k < length (items grp)" "items grp ! k = Def a"
    and j: "j < length (items grp)" "items grp ! j = Def b"
  shows "moveOntoItem groups (Some (id_group grp)) (id_item a) (Some (id_group grp)) (id_item b) =
           Some (groups[gi := Def (grp\<lparr>items :=
                   take j (take k (items grp) @ drop (Suc k) (items grp)) @ Def a #
                   drop j (take k (items grp) @ drop (Suc k) (items grp))\<rparr>)])"
  using find_group [OF v gi] find_item [OF v gi k] find_item [OF v gi j] gi k j
  by (simp add: moveOntoItem_def at_index_nat arrayMove_in_range)

lemma find_group_after_update:
  assumes v: "valid_model groups"
    and si: "si < length groups" "groups ! si = Def src"
    and ti: "ti < length groups" "groups ! ti = Def tgt"
  shows "findIndex (\<lambda>x. id_group x = id_group tgt) (groups[si := Def (src\<lparr>items := its\<rparr>)]) = Some (int ti)"
proof -
  let ?gs = "groups[si := Def (src\<lparr>items := its\<rparr>)]"
  have ad: "list_all is_def groups" and dg: "distinct (map id_group (defs groups))"
    using valid_model_groups [OF v] by auto
  have ad': "list_all is_def ?gs"
    using ad by (simp add: list_all_update)
  have eq: "map id_group (defs ?gs) = map id_group (defs groups)"
  proof (rule nth_equalityI)
    show "length (map id_group (defs ?gs)) = length (map id_group (defs groups))"
      using length_defs_all_def [OF ad] length_defs_all_def [OF ad'] by simp
  next
    fix i assume "i < length (map id_group (defs ?gs))"
    then have i: "i < length groups" using length_defs_all_def [OF ad'] by simp
    have a: "?gs ! i = Def (defs ?gs ! i)" using nth_defs_all_def [OF ad'] i by simp
    have b: "groups ! i = Def (defs groups ! i)" using nth_defs_all_def [OF ad] i by simp
    have "id_group (defs ?gs ! i) = id_group (defs groups ! i)"
    proof (cases "i = si")
      case True
      then have "defs ?gs ! i = src\<lparr>items := its\<rparr>" using a si by simp
      moreover have "defs groups ! i = src" using True b si by simp
      ultimately show ?thesis by simp
    next
      case False
      then show ?thesis using a b by simp
    qed
    then show "map id_group (defs ?gs) ! i = map id_group (defs groups) ! i"
      using i length_defs_all_def [OF ad] length_defs_all_def [OF ad'] by simp
  qed
  show ?thesis
  proof (cases "ti = si")
    case True
    then have "id_group tgt = id_group (src\<lparr>items := its\<rparr>)" using si ti by simp
    moreover have "findIndex (\<lambda>x. id_group x = id_group (src\<lparr>items := its\<rparr>)) ?gs = Some (int si)"
      using ad' dg eq si by (intro findIndex_unique) simp_all
    ultimately show ?thesis using True by simp
  next
    case False
    show ?thesis using ad' dg eq ti False by (intro findIndex_unique) simp_all
  qed
qed

lemma moveOntoItem_other_group:
  assumes v: "valid_model groups"
    and si: "si < length groups" "groups ! si = Def src"
    and ti: "ti < length groups" "groups ! ti = Def tgt"
    and ne: "si \<noteq> ti"
    and k: "k < length (items src)" "items src ! k = Def a"
    and j: "j < length (items tgt)" "items tgt ! j = Def b"
  shows "moveOntoItem groups (Some (id_group src)) (id_item a) (Some (id_group tgt)) (id_item b) =
           Some (groups[si := Def (src\<lparr>items := take k (items src) @ drop (Suc k) (items src)\<rparr>),
                        ti := Def (tgt\<lparr>items := take j (items tgt) @ Def a # drop j (items tgt)\<rparr>)])"
proof -
  have idne: "id_group src \<noteq> id_group tgt" by (rule valid_model_other_group(2) [OF v si ti ne])
  show ?thesis
    using find_group [OF v si] find_item [OF v si k] find_item [OF v ti j]
      find_group_after_update [OF v si ti] si ti k j ne idne
    by (simp add: moveOntoItem_def at_index_nat splice_remove_at splice_insert_at)
qed

lemma moveToEnd_valid:
  assumes v: "valid_model groups"
    and si: "si < length groups" "groups ! si = Def src"
    and ti: "ti < length groups" "groups ! ti = Def tgt"
    and k: "k < length (items src)" "items src ! k = Def a"
  shows "moveToEnd groups (Some (id_group src)) (id_item a) (Some (id_group tgt)) =
           Some (if si = ti
                 then groups[si := Def (src\<lparr>items := take k (items src) @ drop (Suc k) (items src) @ [Def a]\<rparr>)]
                 else groups[si := Def (src\<lparr>items := take k (items src) @ drop (Suc k) (items src)\<rparr>),
                             ti := Def (tgt\<lparr>items := items tgt @ [Def a]\<rparr>)])"
  using find_group [OF v si] find_item [OF v si k]
    find_group_after_update [OF v si ti] si ti k
  by (simp add: moveToEnd_def at_index_nat splice_remove_at)

text \<open>
  Claim C4. In a valid model, an item at position \<open>k\<close> of one group dropped on the item at
  position \<open>j\<close> of another group leaves the source group and is inserted in the target
  group at position \<open>j\<close>; the target item and everything after it move down by one, and
  no other group changes. Example: source A, B and target X, Y, moving B onto Y, gives
  A and X, B, Y.
\<close>

theorem cross_group_drop_inserts_at_target:
  assumes "valid_model groups"
    and "si < length groups" and "groups ! si = Def src"
    and "ti < length groups" and "groups ! ti = Def tgt"
    and "si \<noteq> ti"
    and "k < length (items src)" and "items src ! k = Def a"
    and "j < length (items tgt)" and "items tgt ! j = Def b"
  shows "handleDragEnd groups
           \<lparr>active = SortableItem a (id_group src), over = Some (SortableItem b (id_group tgt))\<rparr> =
         Some (groups[si := Def (src\<lparr>items := take k (items src) @ drop (Suc k) (items src)\<rparr>),
                      ti := Def (tgt\<lparr>items := take j (items tgt) @ Def a # drop j (items tgt)\<rparr>)])"
proof -
  have "id_item a \<in> set (group_item_ids src)" by (rule id_item_mem_ids [OF assms(7,8)])
  moreover have "id_item b \<in> set (group_item_ids tgt)" by (rule id_item_mem_ids [OF assms(9,10)])
  ultimately have "id_item a \<noteq> id_item b"
    using valid_model_other_group(1) [OF assms(1-6)] by auto
  then have "handleDragEnd groups
           \<lparr>active = SortableItem a (id_group src), over = Some (SortableItem b (id_group tgt))\<rparr> =
          moveOntoItem groups (Some (id_group src)) (id_item a) (Some (id_group tgt)) (id_item b)"
    by (simp add: handleDragEnd_def SortableItem_def)
  then show ?thesis by (simp only: moveOntoItem_other_group [OF assms])
qed

text \<open>
  Claim C5. In a valid model, an item at position \<open>k\<close> dropped on a different item at
  position \<open>j\<close> of the same group is removed at \<open>k\<close> and inserted at \<open>j\<close> of the
  sequence without it; only that group's items change. Example: A, B, C, D with D moved
  to B's position gives A, D, B, C.
\<close>

theorem same_group_drop_is_array_move:
  assumes "valid_model groups"
    and "gi < length groups" and "groups ! gi = Def grp"
    and "k < length (items grp)" and "items grp ! k = Def a"
    and "j < length (items grp)" and "items grp ! j = Def b"
    and "k \<noteq> j"
  shows "handleDragEnd groups
           \<lparr>active = SortableItem a (id_group grp), over = Some (SortableItem b (id_group grp))\<rparr> =
         Some (groups[gi := Def (grp\<lparr>items :=
                 take j (take k (items grp) @ drop (Suc k) (items grp)) @ Def a #
                 drop j (take k (items grp) @ drop (Suc k) (items grp))\<rparr>)])"
proof -
  have ad: "list_all is_def (items grp)" and d: "distinct (map id_item (defs (items grp)))"
    using valid_model_group [OF assms(1-3)] by auto
  have "defs (items grp) ! k = a" "defs (items grp) ! j = b"
    using nth_defs_all_def [OF ad assms(4)] nth_defs_all_def [OF ad assms(6)] assms(5,7) by simp_all
  then have "id_item a \<noteq> id_item b"
    using d assms(4,6,8) length_defs_all_def [OF ad] by (auto simp: distinct_conv_nth)
  then have "handleDragEnd groups
           \<lparr>active = SortableItem a (id_group grp), over = Some (SortableItem b (id_group grp))\<rparr> =
          moveOntoItem groups (Some (id_group grp)) (id_item a) (Some (id_group grp)) (id_item b)"
    by (simp add: handleDragEnd_def SortableItem_def)
  then show ?thesis by (simp only: moveOntoItem_same_group [OF assms(1-7)])
qed

text \<open>
  Claim C7. In a valid model, an item dropped on the empty-slot placeholder of a group or
  on a group header leaves its source group and is appended to the end of the target
  group's items (when the target is the item's own group, it moves to the end of that
  group). Example: moving A from the source A, B onto the placeholder of an empty group
  gives B and A.
\<close>

theorem drop_on_slot_or_header_appends:
  assumes "valid_model groups"
    and "si < length groups" and "groups ! si = Def src"
    and "ti < length groups" and "groups ! ti = Def tgt"
    and "k < length (items src)" and "items src ! k = Def a"
    and "ov = EmptyItem (id_group tgt) \<or> ov = SortableGroup tgt"
  shows "handleDragEnd groups \<lparr>active = SortableItem a (id_group src), over = Some ov\<rparr> =
         Some (if si = ti
               then groups[si := Def (src\<lparr>items :=
                      take k (items src) @ drop (Suc k) (items src) @ [Def a]\<rparr>)]
               else groups[si := Def (src\<lparr>items := take k (items src) @ drop (Suc k) (items src)\<rparr>),
                           ti := Def (tgt\<lparr>items := items tgt @ [Def a]\<rparr>)])"
proof -
  have "handleDragEnd groups \<lparr>active = SortableItem a (id_group src), over = Some ov\<rparr> =
          moveToEnd groups (Some (id_group src)) (id_item a) (Some (id_group tgt))"
    using assms(8) by (auto simp: handleDragEnd_def SortableItem_def EmptyItem_def SortableGroup_def)
  then show ?thesis by (simp only: moveToEnd_valid [OF assms(1-7)])
qed

lemma valid_model_initialGroups: "valid_model initialGroups"
  by (simp add: valid_model_def typed_def all_item_ids_def group_item_ids_def initialGroups_def
      group1_def group2_def group3_def mkItem_def)

theorem group_drop_is_array_move_witness:
  "valid_model initialGroups \<and>
   handleDragEnd initialGroups \<lparr>active = SortableGroup group3, over = Some (SortableGroup group1)\<rparr> =
     Some [Def group3, Def group1, Def group2]"
proof -
  have v: "valid_model initialGroups" by (rule valid_model_initialGroups)
  have "handleDragEnd initialGroups \<lparr>active = SortableGroup group3, over = Some (SortableGroup group1)\<rparr> =
     Some (take 0 (take 2 initialGroups @ drop (Suc 2) initialGroups) @ Def group3 #
                 drop 0 (take 2 initialGroups @ drop (Suc 2) initialGroups))"
    by (rule group_drop_is_array_move [OF v, where h = group1])
       (simp_all add: initialGroups_def SortableGroup_def group1_def group3_def)
  then show ?thesis using v by (simp add: initialGroups_def)
qed

theorem cross_group_drop_inserts_at_target_witness:
  "valid_model [Def \<lparr>id_group = ''S'', title = ''Source'',
                     items = [Def (mkItem ''A'' ''a''), Def (mkItem ''B'' ''b'')], isCollapsed = None\<rparr>,
                Def \<lparr>id_group = ''T'', title = ''Target'',
                     items = [Def (mkItem ''X'' ''x''), Def (mkItem ''Y'' ''y'')], isCollapsed = None\<rparr>] \<and>
   handleDragEnd
     [Def \<lparr>id_group = ''S'', title = ''Source'',
           items = [Def (mkItem ''A'' ''a''), Def (mkItem ''B'' ''b'')], isCollapsed = None\<rparr>,
      Def \<lparr>id_group = ''T'', title = ''Target'',
           items = [Def (mkItem ''X'' ''x''), Def (mkItem ''Y'' ''y'')], isCollapsed = None\<rparr>]
     \<lparr>active = SortableItem (mkItem ''B'' ''b'') ''S'', over = Some (SortableItem (mkItem ''Y'' ''y'') ''T'')\<rparr> =
   Some [Def \<lparr>id_group = ''S'', title = ''Source'',
              items = [Def (mkItem ''A'' ''a'')], isCollapsed = None\<rparr>,
         Def \<lparr>id_group = ''T'', title = ''Target'',
              items = [Def (mkItem ''X'' ''x''), Def (mkItem ''B'' ''b''), Def (mkItem ''Y'' ''y'')],
              isCollapsed = None\<rparr>]"
proof -
  let ?src = "\<lparr>id_group = ''S'', title = ''Source'',
               items = [Def (mkItem ''A'' ''a''), Def (mkItem ''B'' ''b'')], isCollapsed = None\<rparr>"
  let ?tgt = "\<lparr>id_group = ''T'', title = ''Target'',
               items = [Def (mkItem ''X'' ''x''), Def (mkItem ''Y'' ''y'')], isCollapsed = None\<rparr>"
  have v: "valid_model [Def ?src, Def ?tgt]"
    by (simp add: valid_model_def typed_def all_item_ids_def group_item_ids_def mkItem_def)
  from cross_group_drop_inserts_at_target [OF v, of 0 ?src 1 ?tgt 1 "mkItem ''B'' ''b''" 1 "mkItem ''Y'' ''y''"]
  show ?thesis using v by simp
qed

theorem same_group_drop_is_array_move_witness:
  "valid_model [Def \<lparr>id_group = ''G'', title = ''Group'',
                     items = [Def (mkItem ''A'' ''a''), Def (mkItem ''B'' ''b''),
                              Def (mkItem ''C'' ''c''), Def (mkItem ''D'' ''d'')], isCollapsed = None\<rparr>] \<and>
   handleDragEnd
     [Def \<lparr>id_group = ''G'', title = ''Group'',
           items = [Def (mkItem ''A'' ''a''), Def (mkItem ''B'' ''b''),
                    Def (mkItem ''C'' ''c''), Def (mkItem ''D'' ''d'')], isCollapsed = None\<rparr>]
     \<lparr>active = SortableItem (mkItem ''D'' ''d'') ''G'', over = Some (SortableItem (mkItem ''B'' ''b'') ''G'')\<rparr> =
   Some [Def \<lparr>id_group = ''G'', title = ''Group'',
              items = [Def (mkItem ''A'' ''a''), Def (mkItem ''D'' ''d''),
                       Def (mkItem ''B'' ''b''), Def (mkItem ''C'' ''c'')], isCollapsed = None\<rparr>]"
proof -
  let ?grp = "\<lparr>id_group = ''G'', title = ''Group'',
               items = [Def (mkItem ''A'' ''a''), Def (mkItem ''B'' ''b''),
                        Def (mkItem ''C'' ''c''), Def (mkItem ''D'' ''d'')], isCollapsed = None\<rparr>"
  have v: "valid_model [Def ?grp]"
    by (simp add: valid_model_def typed_def all_item_ids_def group_item_ids_def mkItem_def)
  from same_group_drop_is_array_move [OF v, of 0 ?grp 3 "mkItem ''D'' ''d''" 1 "mkItem ''B'' ''b''"]
  show ?thesis using v by (simp add: numeral_3_eq_3)
qed

theorem drop_on_slot_or_header_appends_witness:
  "valid_model [Def \<lparr>id_group = ''S'', title = ''Source'',
                     items = [Def (mkItem ''A'' ''a''), Def (mkItem ''B'' ''b'')], isCollapsed = None\<rparr>,
                Def \<lparr>id_group = ''T'', title = ''Target'', items = [], isCollapsed = None\<rparr>] \<and>
   handleDragEnd
     [Def \<lparr>id_group = ''S'', title = ''Source'',
           items = [Def (mkItem ''A'' ''a''), Def (mkItem ''B'' ''b'')], isCollapsed = None\<rparr>,
      Def \<lparr>id_group = ''T'', title = ''Target'', items = [], isCollapsed = None\<rparr>]
     \<lparr>active = SortableItem (mkItem ''A'' ''a'') ''S'', over = Some (EmptyItem ''T'')\<rparr> =
   Some [Def \<lparr>id_group = ''S'', title = ''Source'',
              items = [Def (mkItem ''B'' ''b'')], isCollapsed = None\<rparr>,
         Def \<lparr>id_group = ''T'', title = ''Target'',
              items = [Def (mkItem ''A'' ''a'')], isCollapsed = None\<rparr>]"
proof -
  let ?src = "\<lparr>id_group = ''S'', title = ''Source'',
               items = [Def (mkItem ''A'' ''a''), Def (mkItem ''B'' ''b'')], isCollapsed = None\<rparr>"
  let ?tgt = "\<lparr>id_group = ''T'', title = ''Target'', items = [], isCollapsed = None\<rparr>"
  have v: "valid_model [Def ?src, Def ?tgt]"
    by (simp add: valid_model_def typed_def all_item_ids_def group_item_ids_def mkItem_def)
  from drop_on_slot_or_header_appends [OF v, of 0 ?src 1 ?tgt 0 "mkItem ''A'' ''a''" "EmptyItem ''T''"]
  show ?thesis using v by simp
qed

section \<open>Conservation and frame of the drop\<close>

lemma at_index_minus_one: "at_index xs (- 1) = Undefined"
  by (simp add: at_index_def)

text \<open>A lookup followed by a successful property read found an element.\<close>
lemma lookup_deref:
  assumes "findIndex p xs = Some r" and "deref (at_index xs r) = Some v"
  shows "0 \<le> r" and "nat r < length xs" and "xs ! nat r = Def v" and "p v"
proof -
  have r: "r \<noteq> - 1" using assms(2) by (auto simp: at_index_minus_one)
  from assms(2) show a: "0 \<le> r" "nat r < length xs" "xs ! nat r = Def v"
    by (simp_all add: deref_at_index)
  from findIndex_found [OF assms(1) r] a(3) show "p v" by auto
qed

lemma moveToEnd_Some:
  assumes "moveToEnd groups ag aid tg = Some gs'"
  obtains si src ii ti tgt where
    "si < length groups" and "groups ! si = Def src" and "Some (id_group src) = ag"
    and "ti < length groups"
    and "(groups[si := Def (src\<lparr>items := snd (splice (items src) ii (Suc 0) [])\<rparr>)]) ! ti = Def tgt"
    and "Some (id_group tgt) = tg"
    and "gs' = groups[si := Def (src\<lparr>items := snd (splice (items src) ii (Suc 0) [])\<rparr>),
                      ti := Def (tgt\<lparr>items := items tgt @ [first (fst (splice (items src) ii (Suc 0) []))]\<rparr>)]"
proof -
  from assms obtain r src ii r' tgt where
    1: "findIndex (\<lambda>g. Some (id_group g) = ag) groups = Some r"
    and 2: "deref (at_index groups r) = Some src"
    and 3: "findIndex (\<lambda>i. id_item i = aid) (items src) = Some ii"
    and 4: "findIndex (\<lambda>g. Some (id_group g) = tg)
              (groups[nat r := Def (src\<lparr>items := snd (splice (items src) ii (Suc 0) [])\<rparr>)]) = Some r'"
    and 5: "deref (at_index (groups[nat r := Def (src\<lparr>items := snd (splice (items src) ii (Suc 0) [])\<rparr>)]) r') = Some tgt"
    and 6: "gs' = groups[nat r := Def (src\<lparr>items := snd (splice (items src) ii (Suc 0) [])\<rparr>),
                      nat r' := Def (tgt\<lparr>items := items tgt @ [first (fst (splice (items src) ii (Suc 0) []))]\<rparr>)]"
    by (auto simp: moveToEnd_def bind_eq_Some_conv Let_def case_prod_beta)
  note a = lookup_deref [OF 1 2] and b = lookup_deref [OF 4 5]
  show ?thesis
    by (rule that [of "nat r" src "nat r'" ii tgt]) (use a b 6 in simp_all)
qed

lemma all_item_ids_append: "all_item_ids (xs @ ys) = all_item_ids xs @ all_item_ids ys"
  by (simp add: all_item_ids_def defs_append)

lemma ids_update:
  assumes "i < length gs" and "gs ! i = Def g"
  shows "mset (all_item_ids (gs[i := Def g'])) + mset (group_item_ids g) =
         mset (all_item_ids gs) + mset (group_item_ids g')"
proof -
  have a: "gs = take i gs @ Def g # drop (Suc i) gs"
    using id_take_nth_drop [OF assms(1)] assms(2) by simp
  have b: "gs[i := Def g'] = take i gs @ Def g' # drop (Suc i) gs"
    by (rule upd_conv_take_nth_drop [OF assms(1)])
  have "mset (all_item_ids gs) =
          mset (all_item_ids (take i gs)) + mset (group_item_ids g) + mset (all_item_ids (drop (Suc i) gs))"
    by (subst a) (simp add: all_item_ids_append, simp add: all_item_ids_def)
  moreover have "mset (all_item_ids (gs[i := Def g'])) =
          mset (all_item_ids (take i gs)) + mset (group_item_ids g') + mset (all_item_ids (drop (Suc i) gs))"
    by (subst b) (simp add: all_item_ids_append, simp add: all_item_ids_def)
  ultimately show ?thesis by simp
qed

lemma headers_update:
  assumes "i < length gs" and "gs ! i = Def g" and "header g' = header g"
  shows "headers (gs[i := Def g']) = headers gs"
proof -
  have "headers (gs[i := Def g']) = (headers gs)[i := map_slot header (gs ! i)]"
    using assms(2,3) by (simp add: headers_def map_update)
  also have "\<dots> = headers gs"
    using assms(1) by (simp add: headers_def list_update_same_conv)
  finally show ?thesis .
qed

lemma header_items [simp]: "header (g\<lparr>items := its\<rparr>) = header g"
  by (simp add: header_def)

lemma group_item_ids_items [simp]: "group_item_ids (g\<lparr>items := its\<rparr>) = map id_item (defs its)"
  by (simp add: group_item_ids_def)

text \<open>The shape of every item move: one write to the source group, then one to the
  target group read from the array after the first write.\<close>
lemma two_writes:
  assumes si: "si < length gs" "gs ! si = Def src"
    and ti: "ti < length gs" "(gs[si := Def (src\<lparr>items := rest\<rparr>)]) ! ti = Def tgt"
    and gs': "gs' = gs[si := Def (src\<lparr>items := rest\<rparr>), ti := Def (tgt\<lparr>items := its\<rparr>)]"
  shows "length gs' = length gs"
    and "headers gs' = headers gs"
    and "n \<noteq> si \<Longrightarrow> n \<noteq> ti \<Longrightarrow> gs' ! n = gs ! n"
    and "mset (defs [m]) + mset (defs rest) = mset (defs (items src)) \<Longrightarrow>
         mset (defs its) = mset (defs (items tgt)) + mset (defs [m]) \<Longrightarrow>
         mset (all_item_ids gs') = mset (all_item_ids gs)"
    and "\<exists>t0. gs ! ti = Def t0 \<and> id_group t0 = id_group tgt"
proof -
  let ?g1 = "gs[si := Def (src\<lparr>items := rest\<rparr>)]"
  have l1: "ti < length ?g1" using ti(1) by simp
  show "length gs' = length gs" by (simp add: gs')
  have "headers gs' = headers ?g1"
    unfolding gs' by (rule headers_update [OF l1 ti(2)]) simp
  also have "\<dots> = headers gs" by (rule headers_update [OF si]) simp
  finally show "headers gs' = headers gs" .
  show "n \<noteq> si \<Longrightarrow> n \<noteq> ti \<Longrightarrow> gs' ! n = gs ! n" by (simp add: gs')
  show "\<exists>t0. gs ! ti = Def t0 \<and> id_group t0 = id_group tgt"
    using ti si by (cases "ti = si") auto
  assume a: "mset (defs [m]) + mset (defs rest) = mset (defs (items src))"
    and b: "mset (defs its) = mset (defs (items tgt)) + mset (defs [m])"
  have 1: "mset (all_item_ids ?g1) + mset (group_item_ids src) =
           mset (all_item_ids gs) + mset (map id_item (defs rest))"
    using ids_update [OF si, of "src\<lparr>items := rest\<rparr>"] by simp
  have 2: "mset (all_item_ids gs') + mset (group_item_ids tgt) =
           mset (all_item_ids ?g1) + mset (map id_item (defs its))"
    unfolding gs' using ids_update [OF l1 ti(2), of "tgt\<lparr>items := its\<rparr>"] by simp
  have a': "mset (group_item_ids src) = mset (map id_item (defs [m])) + mset (map id_item (defs rest))"
    using arg_cong [OF a, of "image_mset id_item"] by (simp add: group_item_ids_def)
  have b': "mset (map id_item (defs its)) = mset (group_item_ids tgt) + mset (map id_item (defs [m]))"
    using arg_cong [OF b, of "image_mset id_item"] by (simp add: group_item_ids_def)
  have "mset (all_item_ids gs') + mset (group_item_ids tgt) + mset (group_item_ids src) =
        mset (all_item_ids gs) + mset (group_item_ids tgt) + mset (group_item_ids src)"
    using 1 2 a' b' by (simp add: ac_simps)
  then show "mset (all_item_ids gs') = mset (all_item_ids gs)" by simp
qed

lemma moveToEnd_facts:
  assumes "moveToEnd groups ag aid tg = Some gs'"
  shows "length gs' = length groups" and "headers gs' = headers groups"
    and "mset (all_item_ids gs') = mset (all_item_ids groups)"
    and "\<And>n g. n < length groups \<Longrightarrow> groups ! n = Def g \<Longrightarrow> Some (id_group g) \<noteq> ag \<Longrightarrow>
           Some (id_group g) \<noteq> tg \<Longrightarrow> gs' ! n = Def g"
proof -
  from assms obtain si src ii ti tgt where
    si: "si < length groups" "groups ! si = Def src" and ag: "Some (id_group src) = ag"
    and ti: "ti < length groups"
      "(groups[si := Def (src\<lparr>items := snd (splice (items src) ii (Suc 0) [])\<rparr>)]) ! ti = Def tgt"
    and tg: "Some (id_group tgt) = tg"
    and gs': "gs' = groups[si := Def (src\<lparr>items := snd (splice (items src) ii (Suc 0) [])\<rparr>),
                      ti := Def (tgt\<lparr>items := items tgt @ [first (fst (splice (items src) ii (Suc 0) []))]\<rparr>)]"
    by (rule moveToEnd_Some)
  note w = two_writes [OF si ti gs']
  show "length gs' = length groups" by (rule w(1))
  show "headers gs' = headers groups" by (rule w(2))
  show "mset (all_item_ids gs') = mset (all_item_ids groups)"
  proof (rule w(4))
    show "mset (defs [first (fst (splice (items src) ii (Suc 0) []))]) +
          mset (defs (snd (splice (items src) ii (Suc 0) []))) = mset (defs (items src))"
      by (rule splice_take_one_defs) simp
    show "mset (defs (items tgt @ [first (fst (splice (items src) ii (Suc 0) []))])) =
          mset (defs (items tgt)) + mset (defs [first (fst (splice (items src) ii (Suc 0) []))])"
      by (simp add: defs_append)
  qed
  fix n g
  assume n: "n < length groups" "groups ! n = Def g" "Some (id_group g) \<noteq> ag" "Some (id_group g) \<noteq> tg"
  from w(5) obtain t0 where t0: "groups ! ti = Def t0" "id_group t0 = id_group tgt" by blast
  have "n \<noteq> si" using n(2,3) si(2) ag by auto
  moreover have "n \<noteq> ti" using n(2,4) t0 tg by auto
  ultimately show "gs' ! n = Def g" using w(3) n(2) by simp
qed

lemma moveOntoItem_facts:
  assumes "moveOntoItem groups ag aid tg oid = Some gs'"
  shows "length gs' = length groups" and "headers gs' = headers groups"
    and "mset (all_item_ids gs') = mset (all_item_ids groups)"
    and "\<And>n g. n < length groups \<Longrightarrow> groups ! n = Def g \<Longrightarrow> Some (id_group g) \<noteq> ag \<Longrightarrow>
           Some (id_group g) \<noteq> tg \<Longrightarrow> gs' ! n = Def g"
proof -
  have "length gs' = length groups \<and> headers gs' = headers groups \<and>
        mset (all_item_ids gs') = mset (all_item_ids groups) \<and>
        (\<forall>n g. n < length groups \<longrightarrow> groups ! n = Def g \<longrightarrow> Some (id_group g) \<noteq> ag \<longrightarrow>
           Some (id_group g) \<noteq> tg \<longrightarrow> gs' ! n = Def g)"
  proof (cases "ag = tg")
    case True
    with assms obtain r grp oi ni where
      1: "findIndex (\<lambda>g. Some (id_group g) = ag) groups = Some r"
      and 2: "deref (at_index groups r) = Some grp"
      and 3: "gs' = groups[nat r := Def (grp\<lparr>items := arrayMove (items grp) oi ni\<rparr>)]"
      by (auto simp: moveOntoItem_def bind_eq_Some_conv)
    note a = lookup_deref [OF 1 2]
    have h: "headers gs' = headers groups"
      unfolding 3 by (rule headers_update [OF a(2,3)]) simp
    have "mset (all_item_ids gs') + mset (group_item_ids grp) =
          mset (all_item_ids groups) + mset (map id_item (defs (arrayMove (items grp) oi ni)))"
      unfolding 3 using ids_update [OF a(2,3), of "grp\<lparr>items := arrayMove (items grp) oi ni\<rparr>"] by simp
    moreover have "mset (map id_item (defs (arrayMove (items grp) oi ni))) = mset (group_item_ids grp)"
      using arg_cong [OF arrayMove_defs [of "items grp" oi ni], of "image_mset id_item"]
      by (simp add: group_item_ids_def)
    ultimately have m: "mset (all_item_ids gs') = mset (all_item_ids groups)" by simp
    have "gs' ! n = Def g" if "n < length groups" "groups ! n = Def g" "Some (id_group g) \<noteq> ag" for n g
    proof -
      have "n \<noteq> nat r" using that(2,3) a(3,4) by auto
      then show ?thesis using that(2) by (simp add: 3)
    qed
    then show ?thesis using h m by (simp add: 3)
  next
    case False
    with assms obtain r src ii r' tgt ti' where
      1: "findIndex (\<lambda>g. Some (id_group g) = ag) groups = Some r"
      and 2: "deref (at_index groups r) = Some src"
      and 4: "findIndex (\<lambda>g. Some (id_group g) = tg)
              (groups[nat r := Def (src\<lparr>items := snd (splice (items src) ii (Suc 0) [])\<rparr>)]) = Some r'"
      and 5: "deref (at_index (groups[nat r := Def (src\<lparr>items := snd (splice (items src) ii (Suc 0) [])\<rparr>)]) r') = Some tgt"
      and 6: "gs' = groups[nat r := Def (src\<lparr>items := snd (splice (items src) ii (Suc 0) [])\<rparr>),
                      nat r' := Def (tgt\<lparr>items :=
                         snd (splice (items tgt) ti' 0 [first (fst (splice (items src) ii (Suc 0) []))])\<rparr>)]"
      by (auto simp: moveOntoItem_def bind_eq_Some_conv Let_def case_prod_beta)
    note a = lookup_deref [OF 1 2] and b = lookup_deref [OF 4 5]
    have b1: "nat r' < length groups" using b(2) by simp
    note w = two_writes [OF a(2,3) b1 b(3) 6]
    have m: "mset (all_item_ids gs') = mset (all_item_ids groups)"
    proof (rule w(4))
      show "mset (defs [first (fst (splice (items src) ii (Suc 0) []))]) +
            mset (defs (snd (splice (items src) ii (Suc 0) []))) = mset (defs (items src))"
        by (rule splice_take_one_defs) simp
      show "mset (defs (snd (splice (items tgt) ti' 0 [first (fst (splice (items src) ii (Suc 0) []))]))) =
            mset (defs (items tgt)) + mset (defs [first (fst (splice (items src) ii (Suc 0) []))])"
        by (rule splice_insert_defs)
    qed
    from w(5) obtain t0 where t0: "groups ! nat r' = Def t0" "id_group t0 = id_group tgt" by blast
    have "gs' ! n = Def g"
      if "n < length groups" "groups ! n = Def g" "Some (id_group g) \<noteq> ag" "Some (id_group g) \<noteq> tg" for n g
    proof -
      have "n \<noteq> nat r" using that(2,3) a(3,4) by auto
      moreover have "n \<noteq> nat r'" using that(2,4) t0 b(4) by auto
      ultimately show ?thesis using w(3) that(2) by simp
    qed
    then show ?thesis using w(1,2) m by simp
  qed
  then show "length gs' = length groups" and "headers gs' = headers groups"
    and "mset (all_item_ids gs') = mset (all_item_ids groups)"
    and "\<And>n g. n < length groups \<Longrightarrow> groups ! n = Def g \<Longrightarrow> Some (id_group g) \<noteq> ag \<Longrightarrow>
           Some (id_group g) \<noteq> tg \<Longrightarrow> gs' ! n = Def g"
    by blast+
qed

lemma mset_concat_map_cong:
  "mset xs = mset ys \<Longrightarrow> mset (concat (map f xs)) = mset (concat (map f ys))"
proof -
  assume a: "mset xs = mset ys"
  have "mset (concat (map f zs)) = sum_mset (image_mset (\<lambda>z. mset (f z)) (mset zs))" for zs
    by (induction zs) simp_all
  then show ?thesis using a by simp
qed

lemma moveGroup_conserves:
  assumes "moveGroup groups aid tg = Some gs'"
  shows "mset (defs gs') = mset (defs groups)" and "mset (all_item_ids gs') = mset (all_item_ids groups)"
proof -
  from assms obtain oi ni where "gs' = arrayMove groups oi ni"
    by (auto simp: moveGroup_def bind_eq_Some_conv)
  then show "mset (defs gs') = mset (defs groups)" by (simp add: arrayMove_defs)
  then show "mset (all_item_ids gs') = mset (all_item_ids groups)"
    unfolding all_item_ids_def by (rule mset_concat_map_cong)
qed

lemma defs_mem_nth: "g \<in> set (defs xs) \<Longrightarrow> \<exists>i<length xs. xs ! i = Def g"
proof (induction xs rule: defs.induct)
  case 1
  then show ?case by simp
next
  case (2 xs)
  then obtain i where "i < length xs" "xs ! i = Def g" by auto
  then have "Suc i < length (Undefined # xs) \<and> (Undefined # xs) ! Suc i = Def g" by simp
  then show ?case by blast
next
  case (3 v xs)
  show ?case
  proof (cases "g = v")
    case True
    then have "0 < length (Def v # xs) \<and> (Def v # xs) ! 0 = Def g" by simp
    then show ?thesis by blast
  next
    case False
    with 3 obtain i where "i < length xs" "xs ! i = Def g" by auto
    then have "Suc i < length (Def v # xs) \<and> (Def v # xs) ! Suc i = Def g" by simp
    then show ?thesis by blast
  qed
qed

lemma has_groupE:
  assumes "has_group gs gid"
  obtains i g where "i < length gs" and "gs ! i = Def g" and "gid = Some (id_group g)"
proof -
  from assms obtain g where g: "g \<in> set (defs gs)" "Some (id_group g) = gid"
    unfolding has_group_def by blast
  from defs_mem_nth [OF g(1)] obtain i where "i < length gs" "gs ! i = Def g" by blast
  then show ?thesis using that g(2) by blast
qed

lemma has_item_inE:
  assumes "has_item_in gs gid iid"
  obtains i g k a where "i < length gs" and "gs ! i = Def g" and "gid = Some (id_group g)"
    and "k < length (items g)" and "items g ! k = Def a" and "iid = id_item a"
proof -
  from assms obtain g where g: "g \<in> set (defs gs)" "Some (id_group g) = gid" "iid \<in> set (group_item_ids g)"
    unfolding has_item_in_def by blast
  from g(3) obtain a where a: "a \<in> set (defs (items g))" "iid = id_item a"
    by (auto simp: group_item_ids_def)
  from defs_mem_nth [OF g(1)] obtain i where "i < length gs" "gs ! i = Def g" by blast
  moreover from defs_mem_nth [OF a(1)] obtain k where "k < length (items g)" "items g ! k = Def a" by blast
  ultimately show ?thesis using that [of i g k a] g(2) a(2) by blast
qed

lemma typed_iff:
  "typed gs \<longleftrightarrow> (\<forall>s \<in> set gs. \<exists>g. s = Def g \<and> list_all is_def (items g))"
proof (induction gs rule: defs.induct)
  case 1
  then show ?case by (simp add: typed_def)
next
  case (2 xs)
  then show ?case by (auto simp: typed_def)
next
  case (3 v xs)
  then show ?case by (auto simp: typed_def)
qed

lemma typed_update:
  "typed gs \<Longrightarrow> list_all is_def (items g) \<Longrightarrow> typed (gs[i := Def g])"
  using set_update_subset_insert [of gs i "Def g"] unfolding typed_iff by blast

lemma headers_ids: "map id_group (defs (headers gs)) = map id_group (defs gs)"
  by (induction gs rule: defs.induct) (simp_all add: headers_def header_def)

lemma headers_all_def: "list_all is_def (headers gs) = list_all is_def gs"
  by (induction gs rule: defs.induct) (simp_all add: headers_def)

lemma headers_defs:
  assumes "headers gs' = headers gs"
  shows "map id_group (defs gs') = map id_group (defs gs)"
proof -
  have "map id_group (defs gs') = map id_group (defs (headers gs'))" by (simp only: headers_ids)
  also have "\<dots> = map id_group (defs (headers gs))" by (simp only: assms)
  also have "\<dots> = map id_group (defs gs)" by (simp only: headers_ids)
  finally show ?thesis .
qed

lemma valid_modelI:
  assumes "valid_model gs" and "typed gs'"
    and "mset (map id_group (defs gs')) = mset (map id_group (defs gs))"
    and "mset (all_item_ids gs') = mset (all_item_ids gs)"
  shows "valid_model gs'"
proof -
  have "distinct (map id_group (defs gs'))"
    using mset_eq_imp_distinct_iff [OF assms(3)] assms(1) by (simp add: valid_model_def)
  moreover have "distinct (all_item_ids gs')"
    using mset_eq_imp_distinct_iff [OF assms(4)] assms(1) by (simp add: valid_model_def)
  ultimately show ?thesis using assms(2) by (simp add: valid_model_def)
qed

lemma list_all_take_drop:
  "list_all P xs \<Longrightarrow> list_all P (take k xs @ drop (Suc k) xs)"
  using set_take_subset [of k xs] set_drop_subset [of "Suc k" xs] by (auto simp: list_all_iff)

lemma typed_arrayMove:
  assumes "typed gs" and "f < length gs" and "t < length gs"
  shows "typed (arrayMove gs (int f) (int t))"
proof -
  let ?r = "take f gs @ drop (Suc f) gs"
  have "set ?r \<subseteq> set gs" using set_take_subset [of f gs] set_drop_subset [of "Suc f" gs] by auto
  then have "set (take t ?r) \<subseteq> set gs" and "set (drop t ?r) \<subseteq> set gs"
    using set_take_subset [of t ?r] set_drop_subset [of t ?r] by blast+
  moreover have "gs ! f \<in> set gs" using assms(2) by simp
  ultimately have "set (take t ?r @ gs ! f # drop t ?r) \<subseteq> set gs" by simp
  then show ?thesis
    using assms(1) unfolding arrayMove_in_range [OF assms(2,3)] typed_iff by blast
qed

lemma moveGroup_step:
  assumes v: "valid_model gs" and a: "has_group gs (Some aid)" and t: "has_group gs tg"
  shows "\<exists>gs'. moveGroup gs aid tg = Some gs' \<and> valid_model gs'"
proof -
  from a obtain oi g where oi: "oi < length gs" "gs ! oi = Def g" and aid': "Some aid = Some (id_group g)"
    by (rule has_groupE)
  from aid' have aid: "aid = id_group g" by simp
  from t obtain ni h where ni: "ni < length gs" "gs ! ni = Def h" and tg: "tg = Some (id_group h)"
    by (rule has_groupE)
  have f: "findIndex (\<lambda>x. id_group x = id_group g) gs = Some (int oi)"
    "findIndex (\<lambda>x. id_group x = id_group h) gs = Some (int ni)"
    using find_group [OF v oi] find_group [OF v ni] by simp_all
  have m: "moveGroup gs aid tg = Some (arrayMove gs (int oi) (int ni))"
    using f by (simp add: moveGroup_def aid tg)
  have "typed (arrayMove gs (int oi) (int ni))"
    using v oi(1) ni(1) by (intro typed_arrayMove) (simp_all add: valid_model_def)
  moreover have "mset (map id_group (defs (arrayMove gs (int oi) (int ni)))) = mset (map id_group (defs gs))"
    using arg_cong [OF moveGroup_conserves(1) [OF m], of "image_mset id_group"] by simp
  ultimately have "valid_model (arrayMove gs (int oi) (int ni))"
    using moveGroup_conserves(2) [OF m] by (rule valid_modelI [OF v])
  then show ?thesis using m by simp
qed

lemma valid_model_by_facts:
  assumes "valid_model gs" and "typed gs'" and "headers gs' = headers gs"
    and "mset (all_item_ids gs') = mset (all_item_ids gs)"
  shows "valid_model gs'"
  using assms(1,2) _ assms(4) by (rule valid_modelI) (simp add: headers_defs [OF assms(3)])

lemma all_def_items:
  assumes "valid_model gs" and "i < length gs" and "gs ! i = Def g"
    and "k < length (items g)"
  shows "list_all is_def (take k (items g) @ drop (Suc k) (items g))"
    and "list_all is_def (items g)" and "is_def (items g ! k)"
proof -
  show a: "list_all is_def (items g)" by (rule valid_model_group(1) [OF assms(1-3)])
  then show "list_all is_def (take k (items g) @ drop (Suc k) (items g))" by (rule list_all_take_drop)
  show "is_def (items g ! k)" using a assms(4) by (simp add: list_all_length)
qed

lemma moveToEnd_step:
  assumes v: "valid_model gs" and a: "has_item_in gs ag aid" and t: "has_group gs tg"
  shows "\<exists>gs'. moveToEnd gs ag aid tg = Some gs' \<and> valid_model gs'"
proof -
  from a obtain si src k it where si: "si < length gs" "gs ! si = Def src"
    and ag: "ag = Some (id_group src)" and k: "k < length (items src)" "items src ! k = Def it"
    and aid: "aid = id_item it"
    by (rule has_item_inE)
  from t obtain ti tgt where ti: "ti < length gs" "gs ! ti = Def tgt" and tg: "tg = Some (id_group tgt)"
    by (rule has_groupE)
  let ?rest = "take k (items src) @ drop (Suc k) (items src)"
  let ?gs' = "if si = ti then gs[si := Def (src\<lparr>items := ?rest @ [Def it]\<rparr>)]
              else gs[si := Def (src\<lparr>items := ?rest\<rparr>), ti := Def (tgt\<lparr>items := items tgt @ [Def it]\<rparr>)]"
  have m: "moveToEnd gs ag aid tg = Some ?gs'"
    unfolding ag aid tg using moveToEnd_valid [OF v si ti k] by simp
  have ty: "typed gs" using v by (simp add: valid_model_def)
  have r: "list_all is_def ?rest" by (rule all_def_items(1) [OF v si k(1)])
  have t1: "typed (gs[si := Def (src\<lparr>items := ?rest @ [Def it]\<rparr>)])"
    using r by (intro typed_update [OF ty]) simp
  have "typed (gs[si := Def (src\<lparr>items := ?rest\<rparr>)])"
    using r by (intro typed_update [OF ty]) simp
  then have t2: "typed (gs[si := Def (src\<lparr>items := ?rest\<rparr>), ti := Def (tgt\<lparr>items := items tgt @ [Def it]\<rparr>)])"
    using valid_model_group(1) [OF v ti] by (elim typed_update) simp
  have "typed ?gs'"
  proof (cases "si = ti")
    case True
    then show ?thesis using t1 by simp
  next
    case False
    then show ?thesis using t2 by simp
  qed
  then have "valid_model ?gs'"
    using moveToEnd_facts(2,3) [OF m] by (rule valid_model_by_facts [OF v])
  then show ?thesis using m by blast
qed

lemma moveOntoItem_step:
  assumes v: "valid_model gs" and a: "has_item_in gs ag aid" and t: "has_item_in gs tg oid"
  shows "\<exists>gs'. moveOntoItem gs ag aid tg oid = Some gs' \<and> valid_model gs'"
proof -
  from a obtain si src k it where si: "si < length gs" "gs ! si = Def src"
    and ag: "ag = Some (id_group src)" and k: "k < length (items src)" "items src ! k = Def it"
    and aid: "aid = id_item it"
    by (rule has_item_inE)
  from t obtain ti tgt j ot where ti: "ti < length gs" "gs ! ti = Def tgt"
    and tg: "tg = Some (id_group tgt)" and j: "j < length (items tgt)" "items tgt ! j = Def ot"
    and oid: "oid = id_item ot"
    by (rule has_item_inE)
  have ty: "typed gs" using v by (simp add: valid_model_def)
  let ?rest = "take k (items src) @ drop (Suc k) (items src)"
  show ?thesis
  proof (cases "si = ti")
    case True
    then have st: "tgt = src" using si ti by simp
    let ?its = "take j ?rest @ Def it # drop j ?rest"
    have m: "moveOntoItem gs ag aid tg oid = Some (gs[si := Def (src\<lparr>items := ?its\<rparr>)])"
      unfolding ag aid tg oid st using moveOntoItem_same_group [OF v si k] j st by simp
    have "list_all is_def ?rest" by (rule all_def_items(1) [OF v si k(1)])
    then have "list_all is_def ?its"
      using set_take_subset [of j ?rest] set_drop_subset [of j ?rest] by (auto simp: list_all_iff)
    then have "typed (gs[si := Def (src\<lparr>items := ?its\<rparr>)])" by (intro typed_update [OF ty]) simp
    then have "valid_model (gs[si := Def (src\<lparr>items := ?its\<rparr>)])"
      using moveOntoItem_facts(2,3) [OF m] by (rule valid_model_by_facts [OF v])
    then show ?thesis using m by blast
  next
    case False
    let ?its = "take j (items tgt) @ Def it # drop j (items tgt)"
    let ?gs' = "gs[si := Def (src\<lparr>items := ?rest\<rparr>), ti := Def (tgt\<lparr>items := ?its\<rparr>)]"
    have m: "moveOntoItem gs ag aid tg oid = Some ?gs'"
      unfolding ag aid tg oid using moveOntoItem_other_group [OF v si ti False k j] by simp
    have "list_all is_def (items tgt)" by (rule valid_model_group(1) [OF v ti])
    then have "list_all is_def ?its"
      using set_take_subset [of j "items tgt"] set_drop_subset [of j "items tgt"]
      by (auto simp: list_all_iff)
    moreover have "typed (gs[si := Def (src\<lparr>items := ?rest\<rparr>)])"
      using all_def_items(1) [OF v si k(1)] by (intro typed_update [OF ty]) simp
    ultimately have "typed ?gs'" by (elim typed_update) simp
    then have "valid_model ?gs'"
      using moveOntoItem_facts(2,3) [OF m] by (rule valid_model_by_facts [OF v])
    then show ?thesis using m by blast
  qed
qed

lemma handleDragEnd_step:
  assumes v: "valid_model gs" and r: "resolves gs ev"
  shows "\<exists>gs'. handleDragEnd gs ev = Some gs' \<and> valid_model gs'"
proof (cases "over ev")
  case None
  then show ?thesis using v by (simp add: handleDragEnd_def Let_def)
next
  case (Some ov)
  show ?thesis
  proof (cases "type_el (active ev)")
    case None
    then show ?thesis using v Some by (simp add: handleDragEnd_def Let_def)
  next
    case at: (Some aty)
    show ?thesis
    proof (cases aty)
      case Group_type
      then have h: "has_group gs (Some (id_el (active ev)))" "has_group gs (overGroupId ov)"
        using r Some at by (simp_all add: resolves_def)
      from moveGroup_step [OF v h] show ?thesis
        using v Some at Group_type by (auto simp: handleDragEnd_def overGroupId_def Let_def)
    next
      case Empty_type
      then show ?thesis using v Some at by (simp add: handleDragEnd_def Let_def)
    next
      case Item_type
      then have a: "has_item_in gs (groupId (active ev)) (id_el (active ev))"
        using r Some at by (simp add: resolves_def)
      show ?thesis
      proof (cases "type_el ov")
        case None
        then show ?thesis using v Some at Item_type by (simp add: handleDragEnd_def Let_def)
      next
        case ot: (Some oty)
        show ?thesis
        proof (cases oty)
          case Group_type
          then have "has_group gs (Some (id_el ov))"
            using r Some at Item_type ot by (simp add: resolves_def overGroupId_def)
          from moveToEnd_step [OF v a this] show ?thesis
            using Some at Item_type ot Group_type by (simp add: handleDragEnd_def Let_def)
        next
          case Empty_type
          then have "has_group gs (groupId ov)"
            using r Some at Item_type ot by (simp add: resolves_def overGroupId_def)
          from moveToEnd_step [OF v a this] show ?thesis
            using Some at Item_type ot Empty_type by (simp add: handleDragEnd_def Let_def)
        next
          case oi: Item_type
          then have "has_item_in gs (groupId ov) (id_el ov)"
            using r Some at Item_type ot by (simp add: resolves_def)
          from moveOntoItem_step [OF v a this] show ?thesis
            using v Some at Item_type ot oi by (simp add: handleDragEnd_def Let_def)
        qed
      qed
    qed
  qed
qed

lemma handleDragEnd_item_cases:
  assumes "handleDragEnd gs ev = Some gs'" and "type_el (active ev) = Some Item_type"
    and "over ev = Some ov"
  shows "moveToEnd gs (groupId (active ev)) (id_el (active ev)) (overGroupId ov) = Some gs' \<or>
         moveOntoItem gs (groupId (active ev)) (id_el (active ev)) (overGroupId ov) (id_el ov) = Some gs' \<or>
         gs' = gs"
proof -
  have a: "handleDragEnd gs ev =
     (if type_el ov = Some Empty_type then
        moveToEnd gs (groupId (active ev)) (id_el (active ev)) (groupId ov)
      else if type_el ov = Some Group_type then
        moveToEnd gs (groupId (active ev)) (id_el (active ev)) (Some (id_el ov))
      else if type_el ov = Some Item_type \<and> id_el (active ev) \<noteq> id_el ov then
        moveOntoItem gs (groupId (active ev)) (id_el (active ev)) (groupId ov) (id_el ov)
      else Some gs)"
    using assms(2,3) by (simp add: handleDragEnd_def Let_def)
  show ?thesis
  proof (cases "type_el ov = Some Empty_type")
    case True
    then show ?thesis using assms(1) a by (simp add: overGroupId_def)
  next
    case ne: False
    show ?thesis
    proof (cases "type_el ov = Some Group_type")
      case True
      then show ?thesis using assms(1) a by (simp add: overGroupId_def)
    next
      case ng: False
      show ?thesis
      proof (cases "type_el ov = Some Item_type \<and> id_el (active ev) \<noteq> id_el ov")
        case True
        then show ?thesis using assms(1) a by (simp add: overGroupId_def)
      next
        case False
        then have "handleDragEnd gs ev = Some gs" using a ne ng by auto
        then show ?thesis using assms(1) by simp
      qed
    qed
  qed
qed







lemma headers_nth:
  assumes "headers gs' = headers gs" and "n < length gs" and "gs ! n = Def g"
  shows "\<exists>g'. gs' ! n = Def g' \<and> id_group g' = id_group g \<and> title g' = title g \<and>
              isCollapsed g' = isCollapsed g"
proof -
  have l: "length gs' = length gs" using arg_cong [OF assms(1), of length] by (simp add: headers_def)
  have "headers gs' ! n = headers gs ! n" by (simp only: assms(1))
  then have e: "map_slot header (gs' ! n) = Def (header g)"
    using assms(2,3) l by (simp add: headers_def)
  then obtain g' where g': "gs' ! n = Def g'" and h: "header g' = header g"
    by (cases "gs' ! n") auto
  have "id_group g' = id_group g" "title g' = title g" "isCollapsed g' = isCollapsed g"
    using arg_cong [OF h, of id_group] arg_cong [OF h, of title] arg_cong [OF h, of isCollapsed]
    by (simp_all add: header_def)
  then show ?thesis using g' by simp
qed

lemma handleDragEnd_item_frame:
  assumes "handleDragEnd gs ev = Some gs'" and "type_el (active ev) = Some Item_type"
  shows "headers gs' = headers gs"
    and "\<And>n g. n < length gs \<Longrightarrow> gs ! n = Def g \<Longrightarrow> Some (id_group g) \<noteq> groupId (active ev) \<Longrightarrow>
           (\<forall>ov. over ev = Some ov \<longrightarrow> Some (id_group g) \<noteq> overGroupId ov) \<Longrightarrow> gs' ! n = Def g"
proof -
  have "headers gs' = headers gs \<and>
        (\<forall>n g. n < length gs \<longrightarrow> gs ! n = Def g \<longrightarrow> Some (id_group g) \<noteq> groupId (active ev) \<longrightarrow>
           (\<forall>ov. over ev = Some ov \<longrightarrow> Some (id_group g) \<noteq> overGroupId ov) \<longrightarrow> gs' ! n = Def g)"
  proof (cases "over ev")
    case None
    then show ?thesis using assms(1) by (simp add: handleDragEnd_def)
  next
    case (Some ov)
    from handleDragEnd_item_cases [OF assms Some]
    consider (e) "moveToEnd gs (groupId (active ev)) (id_el (active ev)) (overGroupId ov) = Some gs'"
      | (i) "moveOntoItem gs (groupId (active ev)) (id_el (active ev)) (overGroupId ov) (id_el ov) = Some gs'"
      | (n) "gs' = gs" by blast
    then show ?thesis
    proof cases
      case e
      from moveToEnd_facts(2,4) [OF e] show ?thesis using Some by simp
    next
      case i
      from moveOntoItem_facts(2,4) [OF i] show ?thesis using Some by simp
    next
      case n
      then show ?thesis by simp
    qed
  qed
  then show "headers gs' = headers gs"
    and "\<And>n g. n < length gs \<Longrightarrow> gs ! n = Def g \<Longrightarrow> Some (id_group g) \<noteq> groupId (active ev) \<Longrightarrow>
           (\<forall>ov. over ev = Some ov \<longrightarrow> Some (id_group g) \<noteq> overGroupId ov) \<Longrightarrow> gs' ! n = Def g"
    by blast+
qed

text \<open>
  Claim C10. In a valid model, a drag-end event whose dragged element is an item and
  whose ids resolve returns a list with the same number of groups, and at every position
  a group with the same id, title and collapsed flag; a group that is neither the group
  named by the dragged item's metadata nor the group of the drop target is returned as it
  was, items included.
\<close>

theorem item_drop_keeps_group_sequence:
  assumes "valid_model groups" and "type_el (active ev) = Some Item_type" and "resolves groups ev"
  shows "\<exists>gs'. handleDragEnd groups ev = Some gs' \<and> length gs' = length groups \<and>
     (\<forall>n<length groups. \<forall>g. groups ! n = Def g \<longrightarrow>
        (\<exists>g'. gs' ! n = Def g' \<and> id_group g' = id_group g \<and> title g' = title g \<and>
              isCollapsed g' = isCollapsed g \<and>
              (Some (id_group g) \<noteq> groupId (active ev) \<and>
               (\<forall>ov. over ev = Some ov \<longrightarrow> Some (id_group g) \<noteq> overGroupId ov) \<longrightarrow> g' = g)))"
proof -
  from handleDragEnd_step [OF assms(1,3)] obtain gs' where r: "handleDragEnd groups ev = Some gs'"
    by blast
  note f = handleDragEnd_item_frame [OF r assms(2)]
  have l: "length gs' = length groups" using arg_cong [OF f(1), of length] by (simp add: headers_def)
  have "\<exists>g'. gs' ! n = Def g' \<and> id_group g' = id_group g \<and> title g' = title g \<and>
              isCollapsed g' = isCollapsed g \<and>
              (Some (id_group g) \<noteq> groupId (active ev) \<and>
               (\<forall>ov. over ev = Some ov \<longrightarrow> Some (id_group g) \<noteq> overGroupId ov) \<longrightarrow> g' = g)"
    if n: "n < length groups" "groups ! n = Def g" for n g
  proof -
    from headers_nth [OF f(1) n] obtain g' where g': "gs' ! n = Def g'" "id_group g' = id_group g"
      "title g' = title g" "isCollapsed g' = isCollapsed g" by blast
    have "g' = g" if "Some (id_group g) \<noteq> groupId (active ev)"
      "\<forall>ov. over ev = Some ov \<longrightarrow> Some (id_group g) \<noteq> overGroupId ov"
      using f(2) [OF n that] g'(1) by simp
    then show ?thesis using g' by blast
  qed
  then show ?thesis using r l by blast
qed

theorem item_drop_keeps_group_sequence_witness:
  "valid_model initialGroups \<and>
   resolves initialGroups
     \<lparr>active = SortableItem (mkItem ''item-1'' ''Research project requirements'') ''group-1'',
      over = Some (SortableItem (mkItem ''item-5'' ''Design user interface'') ''group-2'')\<rparr> \<and>
   (\<exists>gs'. handleDragEnd initialGroups
      \<lparr>active = SortableItem (mkItem ''item-1'' ''Research project requirements'') ''group-1'',
       over = Some (SortableItem (mkItem ''item-5'' ''Design user interface'') ''group-2'')\<rparr> = Some gs' \<and>
      length gs' = 3 \<and> gs' ! 2 = Def group3 \<and>
      (\<exists>g'. gs' ! 0 = Def g' \<and> id_group g' = ''group-1'' \<and> title g' = ''To Do'' \<and> isCollapsed g' = None))"
proof -
  let ?ev = "\<lparr>active = SortableItem (mkItem ''item-1'' ''Research project requirements'') ''group-1'',
      over = Some (SortableItem (mkItem ''item-5'' ''Design user interface'') ''group-2'')\<rparr>"
  have v: "valid_model initialGroups" by (rule valid_model_initialGroups)
  have t: "type_el (active ?ev) = Some Item_type" by (simp add: SortableItem_def)
  have r: "resolves initialGroups ?ev" by code_simp
  from item_drop_keeps_group_sequence [OF v t r]
  obtain gs' where a: "handleDragEnd initialGroups ?ev = Some gs'" "length gs' = length initialGroups"
    and b: "\<forall>n<length initialGroups. \<forall>g. initialGroups ! n = Def g \<longrightarrow>
        (\<exists>g'. gs' ! n = Def g' \<and> id_group g' = id_group g \<and> title g' = title g \<and>
              isCollapsed g' = isCollapsed g \<and>
              (Some (id_group g) \<noteq> groupId (active ?ev) \<and>
               (\<forall>ov. over ?ev = Some ov \<longrightarrow> Some (id_group g) \<noteq> overGroupId ov) \<longrightarrow> g' = g))"
    by blast
  have l: "length initialGroups = 3" by (simp add: initialGroups_def)
  have "initialGroups ! 2 = Def group3" by (simp add: initialGroups_def)
  from b [rule_format, OF _ this] l have 2: "gs' ! 2 = Def group3"
    by (auto simp: group3_def SortableItem_def overGroupId_def)
  have "initialGroups ! 0 = Def group1" by (simp add: initialGroups_def)
  from b [rule_format, OF _ this] l
  have 0: "\<exists>g'. gs' ! 0 = Def g' \<and> id_group g' = ''group-1'' \<and> title g' = ''To Do'' \<and> isCollapsed g' = None"
    by (auto simp: group1_def)
  show ?thesis using v r a l 2 0 by auto
qed

section \<open>The store and the list of groups it holds\<close>

lemma findIndex_from_map:
  "findIndex_from k p (map (map_slot f) xs) = findIndex_from k (\<lambda>x. p (f x)) xs"
  by (induction k "\<lambda>x. p (f x)" xs rule: findIndex_from.induct) auto

lemma findIndex_snapshot:
  "findIndex p (snapshot s groups) = findIndex (\<lambda>r. p (group_at s r)) groups"
  by (simp add: findIndex_def snapshot_def findIndex_from_map)

lemma deref_snapshot:
  "deref (at_index (snapshot s groups) i) = map_option (group_at s) (deref (at_index groups i))"
proof (cases "0 \<le> i \<and> nat i < length groups")
  case True
  then show ?thesis by (cases "groups ! nat i") (simp_all add: at_index_def snapshot_def)
next
  case False
  then show ?thesis by (auto simp: at_index_def snapshot_def)
qed

lemma group_at_simps [simp]:
  "id_group (group_at s r) = id_obj (objs s r)"
  "items (group_at s r) = arrs s (items_ref (objs s r))"
  by (simp_all add: group_at_def)

lemma distinct_map_defs_nth:
  assumes "distinct (map f (defs xs))" and "i < length xs" and "j < length xs"
    and "xs ! i = Def a" and "xs ! j = Def b" and "i \<noteq> j"
  shows "f a \<noteq> f b"
  using assms
proof (induction xs arbitrary: i j rule: defs.induct)
  case 1
  then show ?case by simp
next
  case (2 xs)
  then obtain i' j' where "i = Suc i'" "j = Suc j'" by (cases i; cases j) auto
  with 2 show ?case by auto
next
  case (3 v xs)
  show ?case
  proof (cases i)
    case 0
    then obtain j' where j: "j = Suc j'" using 3(7) by (cases j) auto
    then have "b \<in> set (defs xs)" using 3(4,6) by (auto intro: defs_nth_mem)
    then have "f b \<in> f ` set (defs xs)" by (rule imageI)
    then show ?thesis using 3(2,5) 0 by auto
  next
    case (Suc i')
    show ?thesis
    proof (cases j)
      case 0
      have "a \<in> set (defs xs)" using 3(3,5) Suc by (auto intro: defs_nth_mem)
      then have "f a \<in> f ` set (defs xs)" by (rule imageI)
      then show ?thesis using 3(2,6) 0 by auto
    next
      case (Suc j')
      then show ?thesis using 3 \<open>i = Suc i'\<close> by auto
    qed
  qed
qed

text \<open>A write to the items array of the group at one position is seen at that position only.\<close>
lemma snapshot_write_array:
  assumes ok: "store_ok s groups" and i: "i < length groups" "groups ! i = Def r"
  shows "snapshot (s\<lparr>arrs := (arrs s)(items_ref (objs s r) := its)\<rparr>) groups =
         (snapshot s groups)[i := Def ((group_at s r)\<lparr>items := its\<rparr>)]"
proof (rule nth_equalityI)
  show "length (snapshot (s\<lparr>arrs := (arrs s)(items_ref (objs s r) := its)\<rparr>) groups) =
        length ((snapshot s groups)[i := Def ((group_at s r)\<lparr>items := its\<rparr>)])"
    by (simp add: snapshot_def)
next
  fix j assume "j < length (snapshot (s\<lparr>arrs := (arrs s)(items_ref (objs s r) := its)\<rparr>) groups)"
  then have j: "j < length groups" by (simp add: snapshot_def)
  let ?s' = "s\<lparr>arrs := (arrs s)(items_ref (objs s r) := its)\<rparr>"
  show "snapshot ?s' groups ! j = (snapshot s groups)[i := Def ((group_at s r)\<lparr>items := its\<rparr>)] ! j"
  proof (cases "j = i")
    case True
    then show ?thesis using i by (simp add: snapshot_def group_at_def)
  next
    case False
    show ?thesis
    proof (cases "groups ! j")
      case Undefined
      then show ?thesis using j False by (simp add: snapshot_def)
    next
      case (Def q)
      have "items_ref (objs s q) \<noteq> items_ref (objs s r)"
        using ok j i Def False
        by (intro distinct_map_defs_nth [where f = "\<lambda>r. items_ref (objs s r)" and xs = groups and i = j and j = i])
           (simp_all add: store_ok_def)
      then show ?thesis using j False Def by (simp add: snapshot_def group_at_def)
    qed
  qed
qed

lemma store_ok_write_array:
  "store_ok s groups \<Longrightarrow> store_ok (s\<lparr>arrs := a\<rparr>) groups"
  by (simp add: store_ok_def)

lemma moveToEnd_st_refines:
  assumes ok: "store_ok s groups"
  shows "map_option (snapshot (fst (moveToEnd_st s groups ag aid tg))) (snd (moveToEnd_st s groups ag aid tg)) =
           moveToEnd (snapshot s groups) ag aid tg"
    and "store_ok (fst (moveToEnd_st s groups ag aid tg)) groups"
    and "snd (moveToEnd_st s groups ag aid tg) \<noteq> None \<Longrightarrow> snd (moveToEnd_st s groups ag aid tg) = Some groups"
proof -
  let ?L = "moveToEnd_st s groups ag aid tg"
  have "map_option (snapshot (fst ?L)) (snd ?L) = moveToEnd (snapshot s groups) ag aid tg \<and>
        store_ok (fst ?L) groups \<and> (snd ?L \<noteq> None \<longrightarrow> snd ?L = Some groups)"
  proof (cases "findIndex (\<lambda>g. Some (id_obj (objs s g)) = ag) groups")
    case None
    then show ?thesis using ok by (simp add: moveToEnd_st_def moveToEnd_def findIndex_snapshot)
  next
    case f1: (Some i)
    show ?thesis
    proof (cases "deref (at_index groups i)")
      case None
      then show ?thesis using ok f1
        by (simp add: moveToEnd_st_def moveToEnd_def findIndex_snapshot deref_snapshot)
    next
      case d1: (Some src)
      then have i: "nat i < length groups" "groups ! nat i = Def src" by (simp_all add: deref_at_index)
      show ?thesis
      proof (cases "findIndex (\<lambda>i. id_item i = aid) (arrs s (items_ref (objs s src)))")
        case None
        then show ?thesis using ok f1 d1
          by (simp add: moveToEnd_st_def moveToEnd_def findIndex_snapshot deref_snapshot)
      next
        case f2: (Some ii)
        define removed where "removed = fst (splice (arrs s (items_ref (objs s src))) ii (Suc 0) [])"
        define rest where "rest = snd (splice (arrs s (items_ref (objs s src))) ii (Suc 0) [])"
        define s1 where "s1 = s\<lparr>arrs := (arrs s)(items_ref (objs s src) := rest)\<rparr>"
        have ok1: "store_ok s1 groups" unfolding s1_def by (rule store_ok_write_array [OF ok])
        have w1: "(snapshot s groups)[nat i := Def ((group_at s src)\<lparr>items := rest\<rparr>)] = snapshot s1 groups"
          unfolding s1_def by (rule snapshot_write_array [OF ok i, symmetric])
        have L: "?L =
          (case findIndex (\<lambda>g. Some (id_obj (objs s1 g)) = tg) groups of
             None \<Rightarrow> (s1, None)
           | Some ti \<Rightarrow>
          (case deref (at_index groups ti) of
             None \<Rightarrow> (s1, None)
           | Some tgt \<Rightarrow>
               (s1\<lparr>arrs := (arrs s1)(items_ref (objs s1 tgt) :=
                          arrs s1 (items_ref (objs s1 tgt)) @ [first removed])\<rparr>,
                Some groups)))"
          using f1 d1 f2
          by (simp add: moveToEnd_st_def Let_def case_prod_beta removed_def rest_def s1_def
              cong: option.case_cong)
        have R: "moveToEnd (snapshot s groups) ag aid tg =
          Option.bind (findIndex (\<lambda>g. Some (id_obj (objs s1 g)) = tg) groups) (\<lambda>ti.
          Option.bind (map_option (group_at s1) (deref (at_index groups ti))) (\<lambda>tgt.
            Some ((snapshot s1 groups)[nat ti := Def (tgt\<lparr>items := items tgt @ [first removed]\<rparr>)])))"
          using f1 d1 f2 w1
          by (simp add: moveToEnd_def findIndex_snapshot deref_snapshot Let_def case_prod_beta
              removed_def rest_def s1_def cong: Option.bind_cong)
        show ?thesis
        proof (cases "findIndex (\<lambda>g. Some (id_obj (objs s1 g)) = tg) groups")
          case None
          then show ?thesis using ok1 by (simp add: L R)
        next
          case f3: (Some ti)
          show ?thesis
          proof (cases "deref (at_index groups ti)")
            case None
            then show ?thesis using ok1 f3 by (simp add: L R)
          next
            case d2: (Some tgt)
            then have t: "nat ti < length groups" "groups ! nat ti = Def tgt"
              by (simp_all add: deref_at_index)
            have "snapshot (s1\<lparr>arrs := (arrs s1)(items_ref (objs s1 tgt) :=
                          arrs s1 (items_ref (objs s1 tgt)) @ [first removed])\<rparr>) groups =
                  (snapshot s1 groups)[nat ti := Def ((group_at s1 tgt)\<lparr>items :=
                          arrs s1 (items_ref (objs s1 tgt)) @ [first removed]\<rparr>)]"
              by (rule snapshot_write_array [OF ok1 t])
            then show ?thesis using f3 d2 store_ok_write_array [OF ok1] by (simp add: L R)
          qed
        qed
      qed
    qed
  qed
  then show "map_option (snapshot (fst ?L)) (snd ?L) = moveToEnd (snapshot s groups) ag aid tg"
    and "store_ok (fst ?L) groups" and "snd ?L \<noteq> None \<Longrightarrow> snd ?L = Some groups"
    by blast+
qed

lemma store_ok_refs:
  assumes "store_ok s groups" and "i < length groups" and "j < length groups"
    and "groups ! i = Def a" and "groups ! j = Def b" and "i \<noteq> j"
  shows "items_ref (objs s a) \<noteq> items_ref (objs s b)" and "a \<noteq> b"
proof -
  show "items_ref (objs s a) \<noteq> items_ref (objs s b)"
    using assms
    by (intro distinct_map_defs_nth [where f = "\<lambda>r. items_ref (objs s r)" and xs = groups and i = i and j = j])
       (simp_all add: store_ok_def)
  then show "a \<noteq> b" by auto
qed

text \<open>A new array assigned to the items field of the group at one position is seen at
  that position only.\<close>
lemma snapshot_write_object:
  assumes ok: "store_ok s groups" and i: "i < length groups" "groups ! i = Def r"
  shows "snapshot (s\<lparr>arrs := (arrs s)(lim s := its),
                      objs := (objs s)(r := (objs s r)\<lparr>items_ref := lim s\<rparr>),
                      lim := Suc (lim s)\<rparr>) groups =
         (snapshot s groups)[i := Def ((group_at s r)\<lparr>items := its\<rparr>)]"
proof (rule nth_equalityI)
  let ?s' = "s\<lparr>arrs := (arrs s)(lim s := its),
               objs := (objs s)(r := (objs s r)\<lparr>items_ref := lim s\<rparr>), lim := Suc (lim s)\<rparr>"
  show "length (snapshot ?s' groups) = length ((snapshot s groups)[i := Def ((group_at s r)\<lparr>items := its\<rparr>)])"
    by (simp add: snapshot_def)
  fix j assume "j < length (snapshot ?s' groups)"
  then have j: "j < length groups" by (simp add: snapshot_def)
  show "snapshot ?s' groups ! j = (snapshot s groups)[i := Def ((group_at s r)\<lparr>items := its\<rparr>)] ! j"
  proof (cases "j = i")
    case True
    then show ?thesis using i by (simp add: snapshot_def group_at_def)
  next
    case False
    show ?thesis
    proof (cases "groups ! j")
      case Undefined
      then show ?thesis using j False by (simp add: snapshot_def)
    next
      case (Def q)
      have "q \<noteq> r" by (rule store_ok_refs(2) [OF ok j i(1) Def i(2) False])
      moreover have "q \<in> set (defs groups)" by (rule defs_nth_mem [OF j Def])
      then have "items_ref (objs s q) \<noteq> lim s" using ok by (auto simp: store_ok_def)
      ultimately show ?thesis using j False Def by (simp add: snapshot_def group_at_def)
    qed
  qed
qed

lemma store_ok_write_object:
  assumes ok: "store_ok s groups"
  shows "store_ok (s\<lparr>arrs := a, objs := (objs s)(r := (objs s r)\<lparr>items_ref := lim s\<rparr>),
                     lim := Suc (lim s)\<rparr>) groups"
proof -
  let ?f = "\<lambda>q. items_ref (objs s q)"
  let ?f' = "\<lambda>q. items_ref (((objs s)(r := (objs s r)\<lparr>items_ref := lim s\<rparr>)) q)"
  have d: "distinct (defs groups)" and inj: "inj_on ?f (set (defs groups))"
    and lt: "\<forall>q \<in> set (defs groups). ?f q < lim s"
    using ok by (simp_all add: store_ok_def distinct_map)
  have "inj_on ?f' (set (defs groups))"
  proof (rule inj_onI)
    fix x y assume x: "x \<in> set (defs groups)" and y: "y \<in> set (defs groups)" and e: "?f' x = ?f' y"
    show "x = y"
    proof (cases "x = r"; cases "y = r")
      assume "x = r" "y = r" then show ?thesis by simp
    next
      assume "x = r" "y \<noteq> r"
      then have "?f y = lim s" using e by simp
      then show ?thesis using lt y by auto
    next
      assume "x \<noteq> r" "y = r"
      then have "?f x = lim s" using e by simp
      then show ?thesis using lt x by auto
    next
      assume "x \<noteq> r" "y \<noteq> r"
      then have "?f x = ?f y" using e by simp
      then show ?thesis using inj x y by (auto dest: inj_onD)
    qed
  qed
  moreover have "\<forall>q \<in> set (defs groups). ?f' q < Suc (lim s)"
    using lt by (auto simp: less_Suc_eq)
  ultimately show ?thesis using d by (simp add: store_ok_def distinct_map)
qed

lemma splice_map:
  "splice (map g xs) st d (map g ins) =
     (map g (fst (splice xs st d ins)), map g (snd (splice xs st d ins)))"
  by (simp add: splice_def Let_def take_map drop_map)

lemma first_map: "first (map (map_slot f) xs) = map_slot f (first xs)"
  by (cases xs) simp_all

lemma arrayMove_map:
  "arrayMove (map (map_slot f) xs) a b = map (map_slot f) (arrayMove xs a b)"
proof -
  have 1: "splice (map (map_slot f) xs) a (Suc 0) [] =
        (map (map_slot f) (fst (splice xs a (Suc 0) [])), map (map_slot f) (snd (splice xs a (Suc 0) [])))"
    using splice_map [of "map_slot f" xs a "Suc 0" "[]"] by simp
  have 2: "splice (map (map_slot f) ys) st 0 [map_slot f y] =
        (map (map_slot f) (fst (splice ys st 0 [y])), map (map_slot f) (snd (splice ys st 0 [y])))" for ys st y
    using splice_map [of "map_slot f" ys st 0 "[y]"] by simp
  show ?thesis
    by (simp add: arrayMove_def Let_def case_prod_beta 1 first_map 2)
qed

lemma store_ok_arrayMove:
  assumes "store_ok s groups"
  shows "store_ok s (arrayMove groups a b)"
proof -
  have m: "mset (defs (arrayMove groups a b)) = mset (defs groups)" by (rule arrayMove_defs)
  then have "mset (map (\<lambda>r. items_ref (objs s r)) (defs (arrayMove groups a b))) =
             mset (map (\<lambda>r. items_ref (objs s r)) (defs groups))" by simp
  from mset_eq_imp_distinct_iff [OF this] mset_eq_setD [OF m] assms
  show ?thesis by (simp add: store_ok_def)
qed

lemma snapshot_arrayMove: "snapshot s (arrayMove groups a b) = arrayMove (snapshot s groups) a b"
  by (simp add: snapshot_def arrayMove_map)

lemma moveGroup_st_refines:
  assumes ok: "store_ok s groups"
  shows "map_option (snapshot (fst (moveGroup_st s groups aid tg))) (snd (moveGroup_st s groups aid tg)) =
           moveGroup (snapshot s groups) aid tg"
    and "fst (moveGroup_st s groups aid tg) = s"
    and "\<And>gs'. snd (moveGroup_st s groups aid tg) = Some gs' \<Longrightarrow> store_ok s gs'"
proof -
  show "map_option (snapshot (fst (moveGroup_st s groups aid tg))) (snd (moveGroup_st s groups aid tg)) =
           moveGroup (snapshot s groups) aid tg"
    by (auto simp: moveGroup_st_def moveGroup_def findIndex_snapshot snapshot_arrayMove
        split: option.splits)
  show "fst (moveGroup_st s groups aid tg) = s"
    by (simp add: moveGroup_st_def split: option.splits)
  fix gs' assume "snd (moveGroup_st s groups aid tg) = Some gs'"
  then obtain a b where "gs' = arrayMove groups a b"
    by (auto simp: moveGroup_st_def split: option.splits)
  then show "store_ok s gs'" using store_ok_arrayMove [OF ok] by simp
qed

lemma moveOntoItem_st_refines:
  assumes ok: "store_ok s groups"
  shows "map_option (snapshot (fst (moveOntoItem_st s groups ag aid tg oid)))
           (snd (moveOntoItem_st s groups ag aid tg oid)) =
           moveOntoItem (snapshot s groups) ag aid tg oid"
    and "store_ok (fst (moveOntoItem_st s groups ag aid tg oid)) groups"
    and "snd (moveOntoItem_st s groups ag aid tg oid) \<noteq> None \<Longrightarrow>
           snd (moveOntoItem_st s groups ag aid tg oid) = Some groups"
proof -
  let ?L = "moveOntoItem_st s groups ag aid tg oid"
  have "map_option (snapshot (fst ?L)) (snd ?L) = moveOntoItem (snapshot s groups) ag aid tg oid \<and>
        store_ok (fst ?L) groups \<and> (snd ?L \<noteq> None \<longrightarrow> snd ?L = Some groups)"
  proof (cases "ag = tg")
    case True
    show ?thesis
    proof (cases "findIndex (\<lambda>g. Some (id_obj (objs s g)) = ag) groups")
      case None
      then show ?thesis using ok True
        by (simp add: moveOntoItem_st_def moveOntoItem_def findIndex_snapshot)
    next
      case f1: (Some i)
      show ?thesis
      proof (cases "deref (at_index groups i)")
        case None
        then show ?thesis using ok f1 True
          by (simp add: moveOntoItem_st_def moveOntoItem_def findIndex_snapshot deref_snapshot)
      next
        case d1: (Some src)
        then have i: "nat i < length groups" "groups ! nat i = Def src"
          by (simp_all add: deref_at_index)
        show ?thesis
        proof (cases "findIndex (\<lambda>i. id_item i = aid) (arrs s (items_ref (objs s src)))")
          case None
          then show ?thesis using ok f1 d1 True
            by (simp add: moveOntoItem_st_def moveOntoItem_def findIndex_snapshot deref_snapshot)
        next
          case f2: (Some ii)
          show ?thesis
          proof (cases "findIndex (\<lambda>i. id_item i = oid) (arrs s (items_ref (objs s src)))")
            case None
            then show ?thesis using ok f1 d1 f2 True
              by (simp add: moveOntoItem_st_def moveOntoItem_def findIndex_snapshot deref_snapshot)
          next
            case (Some ni)
            let ?its = "arrayMove (arrs s (items_ref (objs s src))) ii ni"
            have "snapshot (s\<lparr>arrs := (arrs s)(lim s := ?its),
                      objs := (objs s)(src := (objs s src)\<lparr>items_ref := lim s\<rparr>),
                      lim := Suc (lim s)\<rparr>) groups =
                  (snapshot s groups)[nat i := Def ((group_at s src)\<lparr>items := ?its\<rparr>)]"
              by (rule snapshot_write_object [OF ok i])
            then show ?thesis
              using f1 d1 f2 True Some store_ok_write_object [OF ok, where a = "(arrs s)(lim s := ?its)" and r = src]
              by (simp add: moveOntoItem_st_def moveOntoItem_def findIndex_snapshot deref_snapshot)
          qed
        qed
      qed
    qed
  next
    case False
    show ?thesis
    proof (cases "findIndex (\<lambda>g. Some (id_obj (objs s g)) = ag) groups")
      case None
      then show ?thesis using ok False
        by (simp add: moveOntoItem_st_def moveOntoItem_def findIndex_snapshot)
    next
      case f1: (Some i)
      show ?thesis
      proof (cases "deref (at_index groups i)")
        case None
        then show ?thesis using ok f1 False
          by (simp add: moveOntoItem_st_def moveOntoItem_def findIndex_snapshot deref_snapshot)
      next
        case d1: (Some src)
        then have i: "nat i < length groups" "groups ! nat i = Def src"
          by (simp_all add: deref_at_index)
        show ?thesis
        proof (cases "findIndex (\<lambda>i. id_item i = aid) (arrs s (items_ref (objs s src)))")
          case None
          then show ?thesis using ok f1 d1 False
            by (simp add: moveOntoItem_st_def moveOntoItem_def findIndex_snapshot deref_snapshot)
        next
          case f2: (Some ii)
          define removed where "removed = fst (splice (arrs s (items_ref (objs s src))) ii (Suc 0) [])"
          define rest where "rest = snd (splice (arrs s (items_ref (objs s src))) ii (Suc 0) [])"
          define s1 where "s1 = s\<lparr>arrs := (arrs s)(items_ref (objs s src) := rest)\<rparr>"
          have ok1: "store_ok s1 groups" unfolding s1_def by (rule store_ok_write_array [OF ok])
          have w1: "(snapshot s groups)[nat i := Def ((group_at s src)\<lparr>items := rest\<rparr>)] = snapshot s1 groups"
            unfolding s1_def by (rule snapshot_write_array [OF ok i, symmetric])
          have L: "?L =
            (case findIndex (\<lambda>g. Some (id_obj (objs s1 g)) = tg) groups of
               None \<Rightarrow> (s1, None)
             | Some ti \<Rightarrow>
            (case deref (at_index groups ti) of
               None \<Rightarrow> (s1, None)
             | Some tgt \<Rightarrow>
            (case findIndex (\<lambda>i. id_item i = oid) (arrs s1 (items_ref (objs s1 tgt))) of
               None \<Rightarrow> (s1, None)
             | Some targetIndex \<Rightarrow>
               (s1\<lparr>arrs := (arrs s1)(items_ref (objs s1 tgt) :=
                    snd (splice (arrs s1 (items_ref (objs s1 tgt))) targetIndex 0 [first removed]))\<rparr>,
                Some groups))))"
            using f1 d1 f2 False
            by (simp add: moveOntoItem_st_def Let_def case_prod_beta removed_def rest_def s1_def
                cong: option.case_cong)
          have R: "moveOntoItem (snapshot s groups) ag aid tg oid =
            Option.bind (findIndex (\<lambda>g. Some (id_obj (objs s1 g)) = tg) groups) (\<lambda>ti.
            Option.bind (map_option (group_at s1) (deref (at_index groups ti))) (\<lambda>tgt.
            Option.bind (findIndex (\<lambda>i. id_item i = oid) (items tgt)) (\<lambda>targetIndex.
              Some ((snapshot s1 groups)[nat ti := Def (tgt\<lparr>items :=
                      snd (splice (items tgt) targetIndex 0 [first removed])\<rparr>)]))))"
            using f1 d1 f2 w1 False
            by (simp add: moveOntoItem_def findIndex_snapshot deref_snapshot Let_def case_prod_beta
                removed_def rest_def s1_def cong: Option.bind_cong)
          show ?thesis
          proof (cases "findIndex (\<lambda>g. Some (id_obj (objs s1 g)) = tg) groups")
            case None
            then show ?thesis using ok1 by (simp add: L R)
          next
            case f3: (Some ti)
            show ?thesis
            proof (cases "deref (at_index groups ti)")
              case None
              then show ?thesis using ok1 f3 by (simp add: L R)
            next
              case d2: (Some tgt)
              then have t: "nat ti < length groups" "groups ! nat ti = Def tgt"
                by (simp_all add: deref_at_index)
              show ?thesis
              proof (cases "findIndex (\<lambda>i. id_item i = oid) (arrs s1 (items_ref (objs s1 tgt)))")
                case None
                then show ?thesis using ok1 f3 d2 by (simp add: L R)
              next
                case f4: (Some targetIndex)
                have "snapshot (s1\<lparr>arrs := (arrs s1)(items_ref (objs s1 tgt) :=
                          snd (splice (arrs s1 (items_ref (objs s1 tgt))) targetIndex 0 [first removed]))\<rparr>) groups =
                      (snapshot s1 groups)[nat ti := Def ((group_at s1 tgt)\<lparr>items :=
                          snd (splice (arrs s1 (items_ref (objs s1 tgt))) targetIndex 0 [first removed])\<rparr>)]"
                  by (rule snapshot_write_array [OF ok1 t])
                then show ?thesis using f3 d2 f4 store_ok_write_array [OF ok1] by (simp add: L R)
              qed
            qed
          qed
        qed
      qed
    qed
  qed
  then show "map_option (snapshot (fst ?L)) (snd ?L) = moveOntoItem (snapshot s groups) ag aid tg oid"
    and "store_ok (fst ?L) groups" and "snd ?L \<noteq> None \<Longrightarrow> snd ?L = Some groups"
    by blast+
qed

lemma handleDragEnd_st_refines:
  assumes ok: "store_ok s groups"
  shows "map_option (snapshot (fst (handleDragEnd_st s groups ev))) (snd (handleDragEnd_st s groups ev)) =
           handleDragEnd (snapshot s groups) ev"
    and "\<And>gs'. snd (handleDragEnd_st s groups ev) = Some gs' \<Longrightarrow>
           store_ok (fst (handleDragEnd_st s groups ev)) gs'"
proof -
  let ?L = "handleDragEnd_st s groups ev"
  have "map_option (snapshot (fst ?L)) (snd ?L) = handleDragEnd (snapshot s groups) ev \<and>
        (\<forall>gs'. snd ?L = Some gs' \<longrightarrow> store_ok (fst ?L) gs')"
  proof (cases "over ev")
    case None
    then show ?thesis using ok by (simp add: handleDragEnd_st_def handleDragEnd_def)
  next
    case (Some ov)
    let ?act = "active ev"
    note e = moveToEnd_st_refines [OF ok, of "groupId ?act" "id_el ?act"]
    note i = moveOntoItem_st_refines [OF ok, of "groupId ?act" "id_el ?act" "groupId ov" "id_el ov"]
    note g = moveGroup_st_refines [OF ok, of "id_el ?act"]
    show ?thesis
    proof (cases "type_el ?act = Some Group_type \<and> id_el ?act \<noteq> id_el ov")
      case c1: True
      show ?thesis
      proof (cases "truthy (if type_el ov = Some Group_type then Some (id_el ov) else groupId ov)")
        case True
        then show ?thesis
          using Some c1 g(1) g(2) g(3)
          by (simp add: handleDragEnd_st_def handleDragEnd_def Let_def)
      next
        case False
        then show ?thesis
          using Some c1 ok by (simp add: handleDragEnd_st_def handleDragEnd_def Let_def)
      qed
    next
      case c1: False
      show ?thesis
      proof (cases "type_el ?act = Some Item_type")
        case c2: True
        show ?thesis
        proof (cases "type_el ov = Some Empty_type")
          case True
          have "?L = moveToEnd_st s groups (groupId ?act) (id_el ?act) (groupId ov)"
            "handleDragEnd (snapshot s groups) ev =
               moveToEnd (snapshot s groups) (groupId ?act) (id_el ?act) (groupId ov)"
            using Some c2 True by (simp_all add: handleDragEnd_st_def handleDragEnd_def Let_def)
          then show ?thesis using e [of "groupId ov"] by auto
        next
          case ne: False
          show ?thesis
          proof (cases "type_el ov = Some Group_type")
            case True
            have "?L = moveToEnd_st s groups (groupId ?act) (id_el ?act) (Some (id_el ov))"
              "handleDragEnd (snapshot s groups) ev =
                 moveToEnd (snapshot s groups) (groupId ?act) (id_el ?act) (Some (id_el ov))"
              using Some c2 True by (simp_all add: handleDragEnd_st_def handleDragEnd_def Let_def)
            then show ?thesis using e [of "Some (id_el ov)"] by auto
          next
            case ng: False
            show ?thesis
            proof (cases "type_el ov = Some Item_type \<and> id_el ?act \<noteq> id_el ov")
              case True
              have "?L = moveOntoItem_st s groups (groupId ?act) (id_el ?act) (groupId ov) (id_el ov)"
                "handleDragEnd (snapshot s groups) ev =
                   moveOntoItem (snapshot s groups) (groupId ?act) (id_el ?act) (groupId ov) (id_el ov)"
                using Some c2 True by (simp_all add: handleDragEnd_st_def handleDragEnd_def Let_def)
              then show ?thesis using i by auto
            next
              case False
              have "?L = (s, Some groups)"
                "handleDragEnd (snapshot s groups) ev = Some (snapshot s groups)"
                using Some c2 ne ng False
                by (auto simp: handleDragEnd_st_def handleDragEnd_def Let_def)
              then show ?thesis using ok by simp
            qed
          qed
        qed
      next
        case False
        have "?L = (s, Some groups)"
          "handleDragEnd (snapshot s groups) ev = Some (snapshot s groups)"
          using Some c1 False by (auto simp: handleDragEnd_st_def handleDragEnd_def Let_def)
        then show ?thesis using ok by simp
      qed
    qed
  qed
  then show "map_option (snapshot (fst ?L)) (snd ?L) = handleDragEnd (snapshot s groups) ev"
    and "\<And>gs'. snd ?L = Some gs' \<Longrightarrow> store_ok (fst ?L) gs'"
    by blast+
qed


text \<open>An item drop returns the references it was given: what changed is in the store.\<close>
lemma item_drop_returns_input_refs:
  assumes ok: "store_ok s groups" and ty: "type_el (active ev) = Some Item_type"
    and r: "snd (handleDragEnd_st s groups ev) = Some gs'"
  shows "gs' = groups"
    and "handleDragEnd (snapshot s groups) ev = Some (snapshot (fst (handleDragEnd_st s groups ev)) groups)"
proof -
  let ?L = "handleDragEnd_st s groups ev"
  let ?act = "active ev"
  have "snd ?L \<noteq> None \<longrightarrow> snd ?L = Some groups"
  proof (cases "over ev")
    case None
    then show ?thesis by (simp add: handleDragEnd_st_def)
  next
    case (Some ov)
    have L: "?L =
       (if type_el ov = Some Empty_type then
          moveToEnd_st s groups (groupId ?act) (id_el ?act) (groupId ov)
        else if type_el ov = Some Group_type then
          moveToEnd_st s groups (groupId ?act) (id_el ?act) (Some (id_el ov))
        else if type_el ov = Some Item_type \<and> id_el ?act \<noteq> id_el ov then
          moveOntoItem_st s groups (groupId ?act) (id_el ?act) (groupId ov) (id_el ov)
        else (s, Some groups))"
      using ty Some by (simp add: handleDragEnd_st_def Let_def)
    show ?thesis
      unfolding L
      using moveToEnd_st_refines(3) [OF ok, of "groupId ?act" "id_el ?act"]
        moveOntoItem_st_refines(3) [OF ok, of "groupId ?act" "id_el ?act" "groupId ov" "id_el ov"]
      by simp
  qed
  then show g: "gs' = groups" using r by simp
  from handleDragEnd_st_refines(1) [OF ok, of ev] r g
  show "handleDragEnd (snapshot s groups) ev = Some (snapshot (fst ?L) groups)" by simp
qed



text \<open>
  Claim C2. The updaters write to the input. On the seed data in a store, dropping the
  first item on the placeholder of the second group returns the same group references,
  and the input list, read again after the call, has lost the item from its first group
  and gained it in its second; the same happens when the item is dropped on an item of the
  second group. Only the outer array is copied by \<open>[...groups]\<close>.
\<close>

theorem drop_writes_to_input_groups:
  "snapshot initialStore initialRefs = initialGroups \<and>
   snd (handleDragEnd_st initialStore initialRefs
          \<lparr>active = SortableItem (mkItem ''item-1'' ''Research project requirements'') ''group-1'',
           over = Some (EmptyItem ''group-2'')\<rparr>) = Some initialRefs \<and>
   snapshot (fst (handleDragEnd_st initialStore initialRefs
          \<lparr>active = SortableItem (mkItem ''item-1'' ''Research project requirements'') ''group-1'',
           over = Some (EmptyItem ''group-2'')\<rparr>)) initialRefs =
     [Def (group1\<lparr>items := [Def (mkItem ''item-2'' ''Create project plan''),
                              Def (mkItem ''item-3'' ''Set up development environment'')]\<rparr>),
      Def (group2\<lparr>items := [Def (mkItem ''item-4'' ''Implement core features''),
                              Def (mkItem ''item-5'' ''Design user interface''),
                              Def (mkItem ''item-1'' ''Research project requirements'')]\<rparr>),
      Def group3] \<and>
   snapshot (fst (handleDragEnd_st initialStore initialRefs
          \<lparr>active = SortableItem (mkItem ''item-1'' ''Research project requirements'') ''group-1'',
           over = Some (SortableItem (mkItem ''item-5'' ''Design user interface'') ''group-2'')\<rparr>)) initialRefs =
     [Def (group1\<lparr>items := [Def (mkItem ''item-2'' ''Create project plan''),
                              Def (mkItem ''item-3'' ''Set up development environment'')]\<rparr>),
      Def (group2\<lparr>items := [Def (mkItem ''item-4'' ''Implement core features''),
                              Def (mkItem ''item-1'' ''Research project requirements''),
                              Def (mkItem ''item-5'' ''Design user interface'')]\<rparr>),
      Def group3]"
  by code_simp

section \<open>Sequences of drops\<close>

lemma run_st_ok:
  "store_ok s groups \<Longrightarrow> snd (run_st s groups evs) = Some gs' \<Longrightarrow>
     store_ok (fst (run_st s groups evs)) gs'"
proof (induction evs arbitrary: s groups)
  case Nil
  then show ?case by simp
next
  case (Cons e es)
  obtain s1 r where h: "handleDragEnd_st s groups e = (s1, r)" by (cases "handleDragEnd_st s groups e")
  show ?case
  proof (cases r)
    case None
    then show ?thesis using Cons.prems(2) h by simp
  next
    case (Some g1)
    have "store_ok s1 g1" using handleDragEnd_st_refines(2) [OF Cons.prems(1), of e g1] h Some by simp
    from Cons.IH [OF this] Cons.prems(2) h Some show ?thesis by simp
  qed
qed




section \<open>Unresolved ids and the drop indicator\<close>

text \<open>
  Claim C1, as stated, fails. On the seed data, an item dropped on a hovered item id that
  occurs nowhere in the model (with the metadata of the second group) is taken out of its
  group and inserted before the last item of the second group: \<open>findIndex\<close> gives
  \<open>-1\<close> and \<open>splice(-1, 0, item)\<close> counts from the end. And an item whose metadata
  names a group that does not exist makes the updater throw, at \<open>updatedGroups[-1].items\<close>.
\<close>

theorem unresolved_ids_are_not_noops:
  "''item-9'' \<notin> set (all_item_ids initialGroups) \<and>
   \<not> resolves initialGroups
       \<lparr>active = SortableItem (mkItem ''item-1'' ''Research project requirements'') ''group-1'',
        over = Some (SortableItem (mkItem ''item-9'' ''stale'') ''group-2'')\<rparr> \<and>
   handleDragEnd initialGroups
       \<lparr>active = SortableItem (mkItem ''item-1'' ''Research project requirements'') ''group-1'',
        over = Some (SortableItem (mkItem ''item-9'' ''stale'') ''group-2'')\<rparr> =
     Some [Def (group1\<lparr>items := [Def (mkItem ''item-2'' ''Create project plan''),
                                   Def (mkItem ''item-3'' ''Set up development environment'')]\<rparr>),
           Def (group2\<lparr>items := [Def (mkItem ''item-4'' ''Implement core features''),
                                   Def (mkItem ''item-1'' ''Research project requirements''),
                                   Def (mkItem ''item-5'' ''Design user interface'')]\<rparr>),
           Def group3] \<and>
   handleDragEnd initialGroups
       \<lparr>active = SortableItem (mkItem ''item-1'' ''Research project requirements'') ''group-1'',
        over = Some (SortableItem (mkItem ''item-9'' ''stale'') ''group-2'')\<rparr> \<noteq> Some initialGroups \<and>
   handleDragEnd initialGroups
       \<lparr>active = SortableItem (mkItem ''item-1'' ''Research project requirements'') ''group-9'',
        over = Some (EmptyItem ''group-2'')\<rparr> = None"
  by code_simp

text \<open>
  Claim C1, amended. The drop returns the model as it was, and throws nothing, under the
  guards the handler has: no drop target; a dragged element that is neither a group nor an
  item; a group dropped on an element with its own id, or on a target whose owning group
  id is missing or empty; an item dropped on an element of type item with its own id, or
  on a target whose type is none of the three. This holds for every model. (For an item
  the ids are compared in the item branch only: a placeholder or a group header is a
  target whatever its id.)
\<close>

theorem guarded_drops_are_noops:
  assumes "over ev = None \<or>
     (\<exists>ov. over ev = Some ov \<and>
        ((type_el (active ev) \<noteq> Some Group_type \<and> type_el (active ev) \<noteq> Some Item_type) \<or>
         (type_el (active ev) = Some Group_type \<and>
            (id_el (active ev) = id_el ov \<or> \<not> truthy (overGroupId ov))) \<or>
         (type_el (active ev) = Some Item_type \<and>
            (type_el ov = None \<or> (type_el ov = Some Item_type \<and> id_el (active ev) = id_el ov)))))"
  shows "handleDragEnd groups ev = Some groups"
proof (cases "over ev")
  case None
  then show ?thesis by (simp add: handleDragEnd_def)
next
  case (Some ov)
  with assms consider
      (other) "type_el (active ev) \<noteq> Some Group_type" "type_el (active ev) \<noteq> Some Item_type"
    | (group) "type_el (active ev) = Some Group_type"
        "id_el (active ev) = id_el ov \<or> \<not> truthy (overGroupId ov)"
    | (item) "type_el (active ev) = Some Item_type"
        "type_el ov = None \<or> (type_el ov = Some Item_type \<and> id_el (active ev) = id_el ov)"
    by auto
  then show ?thesis
  proof cases
    case other
    then show ?thesis using Some by (simp add: handleDragEnd_def Let_def)
  next
    case group
    then show ?thesis using Some by (auto simp: handleDragEnd_def Let_def overGroupId_def)
  next
    case item
    then show ?thesis using Some by (auto simp: handleDragEnd_def Let_def)
  qed
qed

theorem guarded_drops_are_noops_witness:
  "handleDragEnd initialGroups
     \<lparr>active = SortableItem (mkItem ''item-1'' ''Research project requirements'') ''group-1'',
      over = Some (SortableItem (mkItem ''item-1'' ''Research project requirements'') ''group-1'')\<rparr> =
     Some initialGroups \<and>
   handleDragEnd initialGroups
     \<lparr>active = SortableItem (mkItem ''item-1'' ''Research project requirements'') ''group-1'',
      over = None\<rparr> = Some initialGroups"
proof -
  have 1: "handleDragEnd initialGroups
     \<lparr>active = SortableItem (mkItem ''item-1'' ''Research project requirements'') ''group-1'',
      over = Some (SortableItem (mkItem ''item-1'' ''Research project requirements'') ''group-1'')\<rparr> =
     Some initialGroups"
    by (rule guarded_drops_are_noops) (simp add: SortableItem_def)
  have 2: "handleDragEnd initialGroups
     \<lparr>active = SortableItem (mkItem ''item-1'' ''Research project requirements'') ''group-1'',
      over = None\<rparr> = Some initialGroups"
    by (rule guarded_drops_are_noops) simp
  from 1 2 show ?thesis by simp
qed

text \<open>
  Claim C8, as stated, fails. On the seed data the item \<open>item-4\<close> is at index 0 of the
  second group; hovering it gives the indicator position 3, the number in its id minus
  one, not 0.
\<close>

theorem hovered_item_position_is_not_its_index:
  "initialGroups ! 1 = Def group2 \<and>
   items group2 ! 0 = Def (mkItem ''item-4'' ''Implement core features'') \<and>
   handleDragMove None
     \<lparr>active = SortableItem (mkItem ''item-1'' ''Research project requirements'') ''group-1'',
      over = Some (SortableItem (mkItem ''item-4'' ''Implement core features'') ''group-2'')\<rparr> =
     Some \<lparr>groupId_ind = Some ''group-2'', itemIndex = Some (Exact 3)\<rparr> \<and>
   handleDragMove None
     \<lparr>active = SortableItem (mkItem ''item-1'' ''Research project requirements'') ''group-1'',
      over = Some (SortableItem (mkItem ''item-4'' ''Implement core features'') ''group-2'')\<rparr> \<noteq>
     Some \<lparr>groupId_ind = Some ''group-2'', itemIndex = Some (Exact 0)\<rparr>"
  by code_simp

lemma digit_chars:
  "\<forall>k \<in> set [0..<10]. is_digit (char_of (48 + k)) \<and> digit_val (char_of (48 + k)) = int k"
  by code_simp

lemma digit_char: "k < 10 \<Longrightarrow> is_digit (char_of (48 + k)) \<and> digit_val (char_of (48 + k)) = int k"
  using digit_chars by simp

lemma digits_of_digits: "\<forall>c \<in> set (digits_of n). is_digit c"
proof (induction n rule: digits_of.induct)
  case (1 n)
  show ?case
  proof (cases "n < 10")
    case True
    then show ?thesis using digit_char [of n] by (subst digits_of.simps) simp
  next
    case False
    then show ?thesis
      using 1 digit_char [of "n mod 10"] by (subst digits_of.simps) simp
  qed
qed

lemma digits_of_nonempty: "digits_of n \<noteq> []"
  by (subst digits_of.simps) simp

lemma digits_of_value: "foldl (\<lambda>a c. 10 * a + digit_val c) 0 (digits_of n) = int n"
proof (induction n rule: digits_of.induct)
  case (1 n)
  show ?case
  proof (cases "n < 10")
    case True
    then show ?thesis using digit_char [of n] by (subst digits_of.simps) simp
  next
    case False
    have "digits_of n = digits_of (n div 10) @ [char_of (48 + n mod 10)]"
      using False by (subst digits_of.simps) simp
    then have "foldl (\<lambda>a c. 10 * a + digit_val c) 0 (digits_of n) =
               10 * int (n div 10) + int (n mod 10)"
      using 1 [OF False] digit_char [of "n mod 10"] by simp
    also have "\<dots> = int n" by presburger
    finally show ?thesis .
  qed
qed

lemma parseInt10_digits_of: "n \<le> 2 ^ 53 \<Longrightarrow> parseInt10 (digits_of n) = Exact (int n)"
proof -
  assume "n \<le> 2 ^ 53"
  then have "int n \<le> 2 ^ 53" by (metis of_nat_le_iff of_nat_numeral of_nat_power)
  then show ?thesis by (simp add: parseInt10_def digits_of_value)
qed

lemma takeWhile_digits:
  assumes "rest = [] \<or> \<not> is_digit (hd rest)"
  shows "takeWhile is_digit (digits_of n @ rest) = digits_of n"
proof -
  have "takeWhile is_digit rest = []" using assms by (cases rest) auto
  then show ?thesis using digits_of_digits [of n] by (simp add: takeWhile_append2)
qed

lemma match_item_number:
  assumes "rest = [] \<or> \<not> is_digit (hd rest)"
  shows "match_item (''item-'' @ digits_of n @ rest) = Some (digits_of n)"
  using takeWhile_digits [OF assms, of n] digits_of_nonempty [of n] by simp

lemma getItemNumber_number:
  assumes "rest = [] \<or> \<not> is_digit (hd rest)" and "n \<le> 2 ^ 53"
  shows "getItemNumber (''item-'' @ digits_of n @ rest) = Some (Exact (int n))"
  using match_item_number [OF assms(1), of n] parseInt10_digits_of [OF assms(2)]
  by (simp add: getItemNumber_def)

text \<open>The pattern finds nothing exactly when no \<open>item-\<close> in the id is followed by a digit.\<close>
lemma match_item_None:
  "match_item s = None \<longleftrightarrow> (\<forall>pre c rest. s = pre @ ''item-'' @ c # rest \<longrightarrow> \<not> is_digit c)"
proof (induction s)
  case Nil
  then show ?case by simp
next
  case (Cons x xs)
  let ?here = "take 5 (x # xs) = ''item-'' \<and> takeWhile is_digit (drop 5 (x # xs)) \<noteq> []"
  have here: "?here \<longleftrightarrow> (\<exists>c rest. x # xs = ''item-'' @ c # rest \<and> is_digit c)"
  proof
    assume h: ?here
    then obtain c rest where d: "drop 5 (x # xs) = c # rest" "is_digit c"
      by (cases "drop 5 (x # xs)") (auto split: if_splits)
    have "x # xs = take 5 (x # xs) @ drop 5 (x # xs)" by simp
    then have "x # xs = ''item-'' @ c # rest" using h d(1) by metis
    then show "\<exists>c rest. x # xs = ''item-'' @ c # rest \<and> is_digit c" using d(2) by blast
  next
    assume "\<exists>c rest. x # xs = ''item-'' @ c # rest \<and> is_digit c"
    then obtain c rest where e: "x # xs = ''item-'' @ c # rest" "is_digit c" by blast
    then show ?here by simp
  qed
  show ?case
  proof (cases ?here)
    case True
    then have "match_item (x # xs) \<noteq> None" by (simp add: Let_def)
    moreover from True here obtain c rest where "x # xs = [] @ ''item-'' @ c # rest" "is_digit c"
      by auto
    ultimately show ?thesis by blast
  next
    case False
    then have m: "match_item (x # xs) = match_item xs" by (auto simp: Let_def)
    have "(\<forall>pre c rest. x # xs = pre @ ''item-'' @ c # rest \<longrightarrow> \<not> is_digit c) \<longleftrightarrow>
          (\<forall>pre c rest. xs = pre @ ''item-'' @ c # rest \<longrightarrow> \<not> is_digit c)"
    proof
      assume a: "\<forall>pre c rest. x # xs = pre @ ''item-'' @ c # rest \<longrightarrow> \<not> is_digit c"
      show "\<forall>pre c rest. xs = pre @ ''item-'' @ c # rest \<longrightarrow> \<not> is_digit c"
      proof (intro allI impI)
        fix pre c rest assume "xs = pre @ ''item-'' @ c # rest"
        then have "x # xs = (x # pre) @ ''item-'' @ c # rest" by simp
        with a show "\<not> is_digit c" by blast
      qed
    next
      assume a: "\<forall>pre c rest. xs = pre @ ''item-'' @ c # rest \<longrightarrow> \<not> is_digit c"
      show "\<forall>pre c rest. x # xs = pre @ ''item-'' @ c # rest \<longrightarrow> \<not> is_digit c"
      proof (intro allI impI)
        fix pre c rest assume e: "x # xs = pre @ ''item-'' @ c # rest"
        show "\<not> is_digit c"
        proof (cases pre)
          case Nil
          then show ?thesis using e False here by auto
        next
          case (Cons y ys)
          then have "xs = ys @ ''item-'' @ c # rest" using e by simp
          with a show ?thesis by blast
        qed
      qed
    qed
    then show ?thesis using m Cons.IH by simp
  qed
qed

lemma getItemNumber_None:
  "getItemNumber s = None \<longleftrightarrow> (\<forall>pre c rest. s = pre @ ''item-'' @ c # rest \<longrightarrow> \<not> is_digit c)"
  by (simp add: getItemNumber_def match_item_None)

lemma first_six:
  assumes "take 5 s = a" and "drop 5 s = c # r"
  shows "take 6 s = a @ [c]"
proof -
  have l: "5 < length s" using assms(2) by (cases "5 < length s") auto
  then have "take (Suc 5) s = take 5 s @ [s ! 5]" by (rule take_Suc_conv_app_nth)
  moreover have "s ! 5 = c" using assms(2) l by (metis hd_drop_conv_nth list.sel(1))
  moreover have "Suc 5 = 6" by simp
  ultimately show ?thesis using assms(1) by metis
qed

text \<open>Characters in front of the first \<open>item-\<close> that is followed by a digit are skipped.\<close>
lemma match_item_prefix:
  assumes "\<forall>p c r. pre @ ''item-'' = p @ ''item-'' @ c # r \<longrightarrow> \<not> is_digit c"
  shows "match_item (pre @ ''item-'' @ t) = match_item (''item-'' @ t)"
  using assms
proof (induction pre)
  case Nil
  then show ?case by simp
next
  case (Cons x pre)
  define u where "u = (x # pre) @ ''item-''"
  have l: "6 \<le> length u" by (simp add: u_def)
  have s: "(x # pre) @ ''item-'' @ t = u @ t" by (simp add: u_def)
  have no: "\<not> (take 5 (u @ t) = ''item-'' \<and> takeWhile is_digit (drop 5 (u @ t)) \<noteq> [])"
  proof
    assume h: "take 5 (u @ t) = ''item-'' \<and> takeWhile is_digit (drop 5 (u @ t)) \<noteq> []"
    then obtain c r where d: "drop 5 (u @ t) = c # r" "is_digit c"
      by (cases "drop 5 (u @ t)") (auto split: if_splits)
    have "take 6 (u @ t) = ''item-'' @ [c]" using h d(1) by (intro first_six) simp_all
    moreover have "take 6 (u @ t) = take 6 u" using l by simp
    ultimately have "u = (''item-'' @ [c]) @ drop 6 u"
      using append_take_drop_id [of 6 u] by simp
    then have "(x # pre) @ ''item-'' = [] @ ''item-'' @ c # drop 6 u" by (simp add: u_def)
    with Cons.prems d(2) show False by blast
  qed
  have "\<forall>p c r. pre @ ''item-'' = p @ ''item-'' @ c # r \<longrightarrow> \<not> is_digit c"
  proof (intro allI impI)
    fix p c r assume "pre @ ''item-'' = p @ ''item-'' @ c # r"
    then have "(x # pre) @ ''item-'' = (x # p) @ ''item-'' @ c # r" by simp
    with Cons.prems show "\<not> is_digit c" by blast
  qed
  from Cons.IH [OF this] have ih: "match_item (pre @ ''item-'' @ t) = match_item (''item-'' @ t)" .
  obtain y ys where u: "u @ t = y # ys" and ys: "ys = pre @ ''item-'' @ t"
    by (simp add: u_def)
  have "match_item (y # ys) = match_item ys"
    using no unfolding u by (auto simp add: Let_def simp del: take_Cons_numeral drop_Cons_numeral)
  then show ?case using ih s u ys by simp
qed

lemma getItemNumber_found:
  assumes "\<forall>p c r. pre @ ''item-'' = p @ ''item-'' @ c # r \<longrightarrow> \<not> is_digit c"
    and "rest = [] \<or> \<not> is_digit (hd rest)" and "n \<le> 2 ^ 53"
  shows "getItemNumber (pre @ ''item-'' @ digits_of n @ rest) = Some (Exact (int n))"
proof -
  have "match_item (pre @ ''item-'' @ digits_of n @ rest) = match_item (''item-'' @ digits_of n @ rest)"
    by (rule match_item_prefix [OF assms(1)])
  then show ?thesis
    using getItemNumber_number [OF assms(2,3)] by (simp add: getItemNumber_def)
qed

lemma show_int_nat: "show_int (int n) = digits_of n"
  by (simp add: show_int_def)

text \<open>What \<open>SortableItem\<close> makes of a position written for the id \<open>item-n\<close>.\<close>
lemma indicator_read_back:
  "showDropIndicatorBefore item gid (Some \<lparr>groupId_ind = g, itemIndex = Some (Exact (int n - 1))\<rparr>) =
     Some (g = Some gid \<and> id_item item = ''item-'' @ digits_of n)"
  by (simp add: showDropIndicatorBefore_def show_int_nat)

text \<open>
  Claim C8, amended. When an item is dragged over an item, the indicator's group is the
  \<open>groupId\<close> of the hovered item's metadata, and its position is the number in the
  hovered item's id minus one: for an id that reads \<open>item-\<close>, the decimal digits of
  \<open>n\<close> (at most \<open>2^53\<close>), and then no further digit, after a prefix in which no
  \<open>item-\<close> is followed by a digit, the position is \<open>n - 1\<close>. When no \<open>item-\<close> in the
  id is followed by a digit, the indicator stays as it was. \<open>SortableItem\<close> reads the
  position back as an item number, so the placeholder is shown before the hovered item.
\<close>

theorem hovered_item_indicator:
  assumes "over ev = Some ov" and "type_el (active ev) = Some Item_type"
    and "type_el ov = Some Item_type"
  shows "(\<forall>pre n rest.
            id_el ov = pre @ ''item-'' @ digits_of n @ rest \<and>
            (\<forall>p c r. pre @ ''item-'' = p @ ''item-'' @ c # r \<longrightarrow> \<not> is_digit c) \<and>
            (rest = [] \<or> \<not> is_digit (hd rest)) \<and> n \<le> 2 ^ 53 \<longrightarrow>
            handleDragMove d ev =
              Some \<lparr>groupId_ind = groupId ov, itemIndex = Some (Exact (int n - 1))\<rparr>) \<and>
         ((\<forall>pre c rest. id_el ov = pre @ ''item-'' @ c # rest \<longrightarrow> \<not> is_digit c) \<longrightarrow>
            handleDragMove d ev = d)"
proof (intro conjI allI impI)
  fix pre n rest
  assume a: "id_el ov = pre @ ''item-'' @ digits_of n @ rest \<and>
            (\<forall>p c r. pre @ ''item-'' = p @ ''item-'' @ c # r \<longrightarrow> \<not> is_digit c) \<and>
            (rest = [] \<or> \<not> is_digit (hd rest)) \<and> n \<le> 2 ^ 53"
  then have "getItemNumber (id_el ov) = Some (Exact (int n))"
    using getItemNumber_found [of pre rest n] by simp
  then show "handleDragMove d ev =
              Some \<lparr>groupId_ind = groupId ov, itemIndex = Some (Exact (int n - 1))\<rparr>"
    using assms by (simp add: handleDragMove_def Let_def)
next
  assume "\<forall>pre c rest. id_el ov = pre @ ''item-'' @ c # rest \<longrightarrow> \<not> is_digit c"
  then have "getItemNumber (id_el ov) = None" by (simp only: getItemNumber_None)
  then show "handleDragMove d ev = d"
    using assms by (simp add: handleDragMove_def Let_def)
qed

theorem hovered_item_indicator_witness:
  "handleDragMove None
     \<lparr>active = SortableItem (mkItem ''item-1'' ''Research project requirements'') ''group-1'',
      over = Some (SortableItem (mkItem ''item-4'' ''Implement core features'') ''group-2'')\<rparr> =
     Some \<lparr>groupId_ind = Some ''group-2'', itemIndex = Some (Exact 3)\<rparr> \<and>
   handleDragMove (Some \<lparr>groupId_ind = Some ''group-2'', itemIndex = Some (Exact 3)\<rparr>)
     \<lparr>active = SortableItem (mkItem ''item-1'' ''Research project requirements'') ''group-1'',
      over = Some (SortableItem (mkItem ''task'' ''no number'') ''group-3'')\<rparr> =
     Some \<lparr>groupId_ind = Some ''group-2'', itemIndex = Some (Exact 3)\<rparr> \<and>
   showDropIndicatorBefore (mkItem ''item-4'' ''Implement core features'') ''group-2''
     (Some \<lparr>groupId_ind = Some ''group-2'', itemIndex = Some (Exact 3)\<rparr>) = Some True \<and>
   showDropIndicatorBefore (mkItem ''item-5'' ''Design user interface'') ''group-2''
     (Some \<lparr>groupId_ind = Some ''group-2'', itemIndex = Some (Exact 3)\<rparr>) = Some False"
proof -
  let ?act = "SortableItem (mkItem ''item-1'' ''Research project requirements'') ''group-1''"
  let ?ov = "SortableItem (mkItem ''item-4'' ''Implement core features'') ''group-2''"
  let ?ov' = "SortableItem (mkItem ''task'' ''no number'') ''group-3''"
  let ?d = "Some \<lparr>groupId_ind = Some ''group-2'', itemIndex = Some (Exact 3)\<rparr>"
  have d4: "digits_of 4 = ''4''" by code_simp
  have "\<forall>pre n rest.
            id_el ?ov = pre @ ''item-'' @ digits_of n @ rest \<and>
            (\<forall>p c r. pre @ ''item-'' = p @ ''item-'' @ c # r \<longrightarrow> \<not> is_digit c) \<and>
            (rest = [] \<or> \<not> is_digit (hd rest)) \<and> n \<le> 2 ^ 53 \<longrightarrow>
            handleDragMove None \<lparr>active = ?act, over = Some ?ov\<rparr> =
              Some \<lparr>groupId_ind = groupId ?ov, itemIndex = Some (Exact (int n - 1))\<rparr>"
    using hovered_item_indicator [of "\<lparr>active = ?act, over = Some ?ov\<rparr>" ?ov None]
    by (simp add: SortableItem_def)
  from this [rule_format, of "[]" 4 "[]"]
  have 1: "handleDragMove None \<lparr>active = ?act, over = Some ?ov\<rparr> = ?d"
    by (simp add: SortableItem_def mkItem_def d4)
  have "(\<forall>pre c rest. id_el ?ov' = pre @ ''item-'' @ c # rest \<longrightarrow> \<not> is_digit c) \<longrightarrow>
            handleDragMove ?d \<lparr>active = ?act, over = Some ?ov'\<rparr> = ?d"
    using hovered_item_indicator [of "\<lparr>active = ?act, over = Some ?ov'\<rparr>" ?ov' ?d]
    by (simp add: SortableItem_def)
  moreover have "\<forall>pre c rest. id_el ?ov' = pre @ ''item-'' @ c # rest \<longrightarrow> \<not> is_digit c"
  proof -
    have "getItemNumber (id_el ?ov') = None" by code_simp
    then show ?thesis by (simp only: getItemNumber_None)
  qed
  ultimately have 2: "handleDragMove ?d \<lparr>active = ?act, over = Some ?ov'\<rparr> = ?d" by blast
  have 3: "showDropIndicatorBefore (mkItem ''item-4'' ''Implement core features'') ''group-2'' ?d = Some True"
    by code_simp
  have 4: "showDropIndicatorBefore (mkItem ''item-5'' ''Design user interface'') ''group-2'' ?d = Some False"
    by code_simp
  from 1 2 3 4 show ?thesis by simp
qed

end
